theory Spec2Isabelle
  imports Main
begin

section \<open>Python strings\<close>

text \<open>
  A Python \<open>str\<close> is a sequence of code points. The strings of the dialogue are
  modelled as \<open>string\<close>s whose characters stand for the code points below 256, so that
  \<open>length\<close> counts code points as Python's \<open>len\<close> does. The character classes below
  are Python's on that range. The validators are modelled on any \<open>str\<close>, see the next
  section.
\<close>

definition code :: "char \<Rightarrow> nat" where
  "code c = of_char c"

text \<open>\<open>str.isspace\<close> on one character.\<close>

definition py_isspace :: "char \<Rightarrow> bool" where
  "py_isspace c \<longleftrightarrow>
     (9 \<le> code c \<and> code c \<le> 13) \<or> (28 \<le> code c \<and> code c \<le> 32) \<or>
     code c = 133 \<or> code c = 160"

text \<open>\<open>str.lower\<close> on one character: \<open>A\<close>-\<open>Z\<close> and the capital letters of Latin-1.\<close>

definition lower_char :: "char \<Rightarrow> char" where
  "lower_char c =
     (if (65 \<le> code c \<and> code c \<le> 90) \<or> (192 \<le> code c \<and> code c \<le> 222 \<and> code c \<noteq> 215)
      then char_of (code c + 32) else c)"

definition lower :: "string \<Rightarrow> string" where
  "lower s = map lower_char s"

definition lstrip :: "string \<Rightarrow> string" where
  "lstrip s = dropWhile py_isspace s"

definition rstrip :: "string \<Rightarrow> string" where
  "rstrip s = rev (dropWhile py_isspace (rev s))"

definition strip :: "string \<Rightarrow> string" where
  "strip s = rstrip (lstrip s)"

text \<open>\<open>sep.join(xs)\<close>.\<close>

fun join :: "string \<Rightarrow> string list \<Rightarrow> string" where
  "join sep [] = []"
| "join sep [x] = x"
| "join sep (x # y # ys) = x @ sep @ join sep (y # ys)"

text \<open>\<open>w in s\<close> for two strings: \<open>w\<close> occurs in \<open>s\<close> as a contiguous substring.\<close>

fun starts_with :: "string \<Rightarrow> string \<Rightarrow> bool" where
  "starts_with [] s = True"
| "starts_with (w # ws) [] = False"
| "starts_with (w # ws) (c # cs) = (w = c \<and> starts_with ws cs)"

fun str_in :: "string \<Rightarrow> string \<Rightarrow> bool" where
  "str_in w [] = (w = [])"
| "str_in w (c # cs) = (starts_with w (c # cs) \<or> str_in w cs)"

section \<open>Code points and the Unicode database\<close>

text \<open>
  The validators hand their argument to \<open>re\<close> and to \<open>datetime.strptime\<close>, which read
  two properties of a character from the Unicode database: whether it is a decimal
  digit, and of which value (the class \<open>\d\<close> of a \<open>str\<close> pattern and \<open>int\<close> take the
  decimal digits of every script), and whether it is whitespace (the class \<open>\s\<close>, and
  what \<open>int\<close> strips). They are modelled on a \<open>str\<close> given as the list of its code
  points, any natural numbers, with the database as a parameter.
\<close>

record unicode =
  decimal :: "nat \<Rightarrow> nat option"
  whitespace :: "nat \<Rightarrow> bool"

definition cps :: "string \<Rightarrow> nat list" where
  "cps s = map code s"

definition ascii_digit :: "nat \<Rightarrow> bool" where
  "ascii_digit c \<longleftrightarrow> 48 \<le> c \<and> c \<le> 57"

definition is_decimal :: "unicode \<Rightarrow> nat \<Rightarrow> bool" where
  "is_decimal U c \<longleftrightarrow> decimal U c \<noteq> None"

text \<open>
  What is used of the database: \<open>0\<close> to \<open>9\<close> are decimal digits with their values, the
  value of a decimal digit is at most nine, the space is whitespace, and no decimal
  digit is whitespace.
\<close>

definition unicode_ok :: "unicode \<Rightarrow> bool" where
  "unicode_ok U \<longleftrightarrow>
     (\<forall>c. ascii_digit c \<longrightarrow> decimal U c = Some (c - 48)) \<and>
     (\<forall>c v. decimal U c = Some v \<longrightarrow> v \<le> 9) \<and>
     whitespace U 32 \<and>
     (\<forall>c. is_decimal U c \<longrightarrow> \<not> whitespace U c)"

text \<open>
  The database below 256, where the decimal digits are \<open>0\<close> to \<open>9\<close> and the whitespace
  is that of \<open>py_isspace\<close>: all that the strings of the dialogue need.
\<close>

definition latin1 :: unicode where
  "latin1 =
     \<lparr>decimal = (\<lambda>c. if ascii_digit c then Some (c - 48) else None),
      whitespace = (\<lambda>c. (9 \<le> c \<and> c \<le> 13) \<or> (28 \<le> c \<and> c \<le> 32) \<or> c = 133 \<or> c = 160)\<rparr>"

text \<open>
  The same with a second script of digits, the Arabic-Indic digits U+0660 to U+0669,
  for the examples.
\<close>

definition two_scripts :: unicode where
  "two_scripts =
     \<lparr>decimal = (\<lambda>c. if ascii_digit c then Some (c - 48)
                      else if 1632 \<le> c \<and> c \<le> 1641 then Some (c - 1632) else None),
      whitespace = whitespace latin1\<rparr>"

text \<open>
  \<open>int(s)\<close> on the strings a \<open>strptime\<close> group can capture: decimal digits, with
  surrounding whitespace ignored.
\<close>

definition strip_cp :: "unicode \<Rightarrow> nat list \<Rightarrow> nat list" where
  "strip_cp U s = rev (dropWhile (whitespace U) (rev (dropWhile (whitespace U) s)))"

definition digit_val :: "unicode \<Rightarrow> nat \<Rightarrow> nat" where
  "digit_val U c = (case decimal U c of Some v \<Rightarrow> v | None \<Rightarrow> 0)"

definition py_int :: "unicode \<Rightarrow> nat list \<Rightarrow> nat" where
  "py_int U s = foldl (\<lambda>n c. 10 * n + digit_val U c) 0 (strip_cp U s)"

section \<open>Regular expressions\<close>

text \<open>
  The fragment of \<open>re\<close> that the patterns of the program use. A match is tried the way
  the backtracking matcher tries it: \<open>rx_match r s\<close> lists, in the order of the search
  (alternatives left to right, \<open>+\<close> greedy), the named groups captured and the text left
  after each way \<open>r\<close> matches a prefix of \<open>s\<close>. \<open>re.match\<close> returns the first.
\<close>

datatype rx =
    Atom "nat \<Rightarrow> bool"
  | Plus "nat \<Rightarrow> bool"
  | Seq rx rx
  | Alt rx rx
  | Grp string rx
  | Dollar

type_synonym groups = "(string \<times> nat list) list"

fun plus_cls :: "(nat \<Rightarrow> bool) \<Rightarrow> nat list \<Rightarrow> nat list list" where
  "plus_cls p [] = []"
| "plus_cls p (c # cs) = (if p c then plus_cls p cs @ [cs] else [])"

fun rx_match :: "rx \<Rightarrow> nat list \<Rightarrow> (groups \<times> nat list) list" where
  "rx_match (Atom p) s = (case s of [] \<Rightarrow> [] | c # cs \<Rightarrow> if p c then [([], cs)] else [])"
| "rx_match (Plus p) s = map (\<lambda>r. ([], r)) (plus_cls p s)"
| "rx_match (Seq a b) s =
     concat (map (\<lambda>(g1, r1). map (\<lambda>(g2, r2). (g1 @ g2, r2)) (rx_match b r1)) (rx_match a s))"
| "rx_match (Alt a b) s = rx_match a s @ rx_match b s"
| "rx_match (Grp n a) s =
     map (\<lambda>(g, r). ((n, take (length s - length r) s) # g, r)) (rx_match a s)"
| "rx_match Dollar s = (if s = [] \<or> s = [10] then [([], s)] else [])"

text \<open>A character, a range of characters, and the class \<open>\d\<close>.\<close>

definition lit :: "char \<Rightarrow> rx" where
  "lit x = Atom (\<lambda>c. c = code x)"

definition in_range :: "char \<Rightarrow> char \<Rightarrow> nat \<Rightarrow> bool" where
  "in_range lo hi c \<longleftrightarrow> code lo \<le> c \<and> c \<le> code hi"

definition rng :: "char \<Rightarrow> char \<Rightarrow> rx" where
  "rng lo hi = Atom (in_range lo hi)"

definition digit :: "unicode \<Rightarrow> rx" where
  "digit U = Atom (is_decimal U)"

fun group :: "groups \<Rightarrow> string \<Rightarrow> nat list" where
  "group [] n = []"
| "group ((k, v) # g) n = (if k = n then v else group g n)"

section \<open>Field validators\<close>

subsection \<open>is_valid_email\<close>

definition not_at_space :: "unicode \<Rightarrow> nat \<Rightarrow> bool" where
  "not_at_space U c \<longleftrightarrow> c \<noteq> code CHR ''@'' \<and> \<not> whitespace U c"

definition ascii_alnum :: "nat \<Rightarrow> bool" where
  "ascii_alnum c \<longleftrightarrow>
     in_range CHR ''a'' CHR ''z'' c \<or> in_range CHR ''A'' CHR ''Z'' c \<or> in_range CHR ''0'' CHR ''9'' c"

text \<open>
  The pattern \<^verbatim>\<open>^[^@\s]+@[^@\s]+\.[a-zA-Z0-9]+$\<close>. \<open>re.match\<close> starts at the beginning of
  the string, where \<open>^\<close> holds; \<open>$\<close> holds at the end and before a final newline.
\<close>

definition email_pattern :: "unicode \<Rightarrow> rx" where
  "email_pattern U =
     Seq (Plus (not_at_space U)) (Seq (lit CHR ''@'') (Seq (Plus (not_at_space U))
       (Seq (lit CHR ''.'') (Seq (Plus ascii_alnum) Dollar))))"

text \<open>\<open>is_valid_email\<close> on any \<open>str\<close>, and on the strings of the dialogue.\<close>

definition is_valid_email_cp :: "unicode \<Rightarrow> nat list \<Rightarrow> bool" where
  "is_valid_email_cp U email \<longleftrightarrow> rx_match (email_pattern U) email \<noteq> []"

definition is_valid_email :: "string \<Rightarrow> bool" where
  "is_valid_email email \<longleftrightarrow> is_valid_email_cp latin1 (cps email)"

subsection \<open>strptime\<close>

text \<open>
  \<open>datetime.strptime\<close> turns the format into a regular expression, one named group for
  each directive, matches it at the start of the string, refuses text left over, reads
  the groups as integers and builds the date, which checks the ranges.
  The groups of the directives used here:
  \<^verbatim>\<open>%Y  (?P<Y>\d\d\d\d)\<close>,
  \<^verbatim>\<open>%m  (?P<m>1[0-2]|0[1-9]|[1-9])\<close>,
  \<^verbatim>\<open>%d  (?P<d>3[0-1]|[1-2]\d|0[1-9]|[1-9]| [1-9])\<close>,
  \<^verbatim>\<open>%H  (?P<H>2[0-3]|[0-1]\d|\d)\<close>,
  \<^verbatim>\<open>%M  (?P<M>[0-5]\d|\d)\<close>.
  The ranges are of ASCII digits; \<open>\d\<close> is any decimal digit.
\<close>

definition re_Y :: "unicode \<Rightarrow> rx" where
  "re_Y U = Grp ''Y'' (Seq (digit U) (Seq (digit U) (Seq (digit U) (digit U))))"

definition re_m :: rx where
  "re_m = Grp ''m'' (Alt (Seq (lit CHR ''1'') (rng CHR ''0'' CHR ''2''))
                    (Alt (Seq (lit CHR ''0'') (rng CHR ''1'' CHR ''9''))
                         (rng CHR ''1'' CHR ''9'')))"

definition re_d :: "unicode \<Rightarrow> rx" where
  "re_d U = Grp ''d'' (Alt (Seq (lit CHR ''3'') (rng CHR ''0'' CHR ''1''))
                      (Alt (Seq (rng CHR ''1'' CHR ''2'') (digit U))
                      (Alt (Seq (lit CHR ''0'') (rng CHR ''1'' CHR ''9''))
                      (Alt (rng CHR ''1'' CHR ''9'')
                           (Seq (lit CHR '' '') (rng CHR ''1'' CHR ''9''))))))"

definition re_H :: "unicode \<Rightarrow> rx" where
  "re_H U = Grp ''H'' (Alt (Seq (lit CHR ''2'') (rng CHR ''0'' CHR ''3''))
                      (Alt (Seq (rng CHR ''0'' CHR ''1'') (digit U))
                           (digit U)))"

definition re_M :: "unicode \<Rightarrow> rx" where
  "re_M U = Grp ''M'' (Alt (Seq (rng CHR ''0'' CHR ''5'') (digit U)) (digit U))"

text \<open>The format \<^verbatim>\<open>%Y-%m-%d\<close> and the format \<^verbatim>\<open>%H:%M\<close>.\<close>

definition date_pattern :: "unicode \<Rightarrow> rx" where
  "date_pattern U =
     Seq (re_Y U) (Seq (lit CHR ''-'') (Seq re_m (Seq (lit CHR ''-'') (re_d U))))"

definition time_pattern :: "unicode \<Rightarrow> rx" where
  "time_pattern U = Seq (re_H U) (Seq (lit CHR '':'') (re_M U))"

definition is_leap :: "nat \<Rightarrow> bool" where
  "is_leap y \<longleftrightarrow> y mod 4 = 0 \<and> (y mod 100 \<noteq> 0 \<or> y mod 400 = 0)"

definition days_in_month :: "nat \<Rightarrow> nat \<Rightarrow> nat" where
  "days_in_month y m =
     (if m = 2 then (if is_leap y then 29 else 28)
      else if m = 4 \<or> m = 6 \<or> m = 9 \<or> m = 11 then 30 else 31)"

text \<open>The checks of the \<open>date\<close> constructor: years 1 to 9999, a month, a day of that month.\<close>

definition date_ok :: "nat \<Rightarrow> nat \<Rightarrow> nat \<Rightarrow> bool" where
  "date_ok y m d \<longleftrightarrow>
     1 \<le> y \<and> y \<le> 9999 \<and> 1 \<le> m \<and> m \<le> 12 \<and> 1 \<le> d \<and> d \<le> days_in_month y m"

datatype py_error = ValueError | KeyError | ChainError

text \<open>\<open>datetime.strptime(s, '%Y-%m-%d')\<close>: the year, month and day, or \<open>ValueError\<close>.\<close>

definition strptime_date :: "unicode \<Rightarrow> nat list \<Rightarrow> py_error + (nat \<times> nat \<times> nat)" where
  "strptime_date U s =
     (case rx_match (date_pattern U) s of
        [] \<Rightarrow> Inl ValueError
      | (g, rest) # _ \<Rightarrow>
          if rest \<noteq> [] then Inl ValueError
          else let year = py_int U (group g ''Y'');
                   month = py_int U (group g ''m'');
                   day = py_int U (group g ''d'')
               in if date_ok year month day then Inr (year, month, day) else Inl ValueError)"

text \<open>\<open>datetime.strptime(s, '%H:%M')\<close>: the hour and minute (on 1900-01-01), or \<open>ValueError\<close>.\<close>

definition strptime_time :: "unicode \<Rightarrow> nat list \<Rightarrow> py_error + (nat \<times> nat)" where
  "strptime_time U s =
     (case rx_match (time_pattern U) s of
        [] \<Rightarrow> Inl ValueError
      | (g, rest) # _ \<Rightarrow>
          if rest \<noteq> [] then Inl ValueError
          else let hour = py_int U (group g ''H'');
                   minute = py_int U (group g ''M'')
               in if hour \<le> 23 \<and> minute \<le> 59 then Inr (hour, minute) else Inl ValueError)"

text \<open>\<open>validate_date\<close> and \<open>validate_time\<close> on any \<open>str\<close>, and on the strings of the dialogue.\<close>

definition validate_date_cp :: "unicode \<Rightarrow> nat list \<Rightarrow> bool" where
  "validate_date_cp U date_str =
     (case strptime_date U date_str of Inr _ \<Rightarrow> True | Inl _ \<Rightarrow> False)"

definition validate_time_cp :: "unicode \<Rightarrow> nat list \<Rightarrow> bool" where
  "validate_time_cp U time_str =
     (case strptime_time U time_str of Inr _ \<Rightarrow> True | Inl _ \<Rightarrow> False)"

definition validate_date :: "string \<Rightarrow> bool" where
  "validate_date date_str = validate_date_cp latin1 (cps date_str)"

definition validate_time :: "string \<Rightarrow> bool" where
  "validate_time time_str = validate_time_cp latin1 (cps time_str)"

subsection \<open>The texts of the groups\<close>

text \<open>
  The texts that the groups of the two formats match: a year of four decimal digits, a
  month \<open>1\<close> to \<open>9\<close>, \<open>01\<close> to \<open>09\<close> or \<open>10\<close> to \<open>12\<close>, a day \<open>1\<close> to \<open>9\<close>, \<open>01\<close> to \<open>09\<close>,
  \<open>30\<close>, \<open>31\<close>, \<open>1\<close> or \<open>2\<close> with a decimal digit, or a space and \<open>1\<close> to \<open>9\<close>, an hour of one
  decimal digit, \<open>0\<close> or \<open>1\<close> with a decimal digit, or \<open>20\<close> to \<open>23\<close>, a minute of one decimal
  digit or \<open>0\<close> to \<open>5\<close> with a decimal digit.
\<close>

fun year_text :: "unicode \<Rightarrow> nat list \<Rightarrow> bool" where
  "year_text U [a, b, c, d] \<longleftrightarrow> is_decimal U a \<and> is_decimal U b \<and> is_decimal U c \<and> is_decimal U d"
| "year_text U ys \<longleftrightarrow> False"

fun month_text :: "nat list \<Rightarrow> bool" where
  "month_text [a, b] \<longleftrightarrow>
     a = code CHR ''1'' \<and> in_range CHR ''0'' CHR ''2'' b \<or>
     a = code CHR ''0'' \<and> in_range CHR ''1'' CHR ''9'' b"
| "month_text [a] \<longleftrightarrow> in_range CHR ''1'' CHR ''9'' a"
| "month_text ms \<longleftrightarrow> False"

fun day_text :: "unicode \<Rightarrow> nat list \<Rightarrow> bool" where
  "day_text U [a, b] \<longleftrightarrow>
     a = code CHR ''3'' \<and> in_range CHR ''0'' CHR ''1'' b \<or>
     in_range CHR ''1'' CHR ''2'' a \<and> is_decimal U b \<or>
     a = code CHR ''0'' \<and> in_range CHR ''1'' CHR ''9'' b \<or>
     a = code CHR '' '' \<and> in_range CHR ''1'' CHR ''9'' b"
| "day_text U [a] \<longleftrightarrow> in_range CHR ''1'' CHR ''9'' a"
| "day_text U ds \<longleftrightarrow> False"

fun hour_text :: "unicode \<Rightarrow> nat list \<Rightarrow> bool" where
  "hour_text U [a, b] \<longleftrightarrow>
     a = code CHR ''2'' \<and> in_range CHR ''0'' CHR ''3'' b \<or>
     in_range CHR ''0'' CHR ''1'' a \<and> is_decimal U b"
| "hour_text U [a] \<longleftrightarrow> is_decimal U a"
| "hour_text U hs \<longleftrightarrow> False"

fun minute_text :: "unicode \<Rightarrow> nat list \<Rightarrow> bool" where
  "minute_text U [a, b] \<longleftrightarrow> in_range CHR ''0'' CHR ''5'' a \<and> is_decimal U b"
| "minute_text U [a] \<longleftrightarrow> is_decimal U a"
| "minute_text U ms \<longleftrightarrow> False"

subsection \<open>The shapes the specification names\<close>

text \<open>
  The zero-padded shape \<open>YYYY-MM-DD\<close>: four digits, a hyphen, two digits, a hyphen, two
  digits.
\<close>

fun spec_date_shape :: "string \<Rightarrow> bool" where
  "spec_date_shape [y1, y2, y3, y4, h1, m1, m2, h2, d1, d2] \<longleftrightarrow>
     ascii_digit (code y1) \<and> ascii_digit (code y2) \<and> ascii_digit (code y3) \<and>
     ascii_digit (code y4) \<and> h1 = CHR ''-'' \<and> ascii_digit (code m1) \<and> ascii_digit (code m2) \<and>
     h2 = CHR ''-'' \<and> ascii_digit (code d1) \<and> ascii_digit (code d2)"
| "spec_date_shape s \<longleftrightarrow> False"

text \<open>
  The shape \<open>local-part@domain.tld\<close>: one \<open>@\<close>, a dot after it, no whitespace, and
  none of the three parts empty.
\<close>

definition spec_email_shape :: "string \<Rightarrow> bool" where
  "spec_email_shape s \<longleftrightarrow>
     (\<exists>local domain tld. s = local @ ''@'' @ domain @ ''.'' @ tld \<and>
        local \<noteq> [] \<and> domain \<noteq> [] \<and> tld \<noteq> [] \<and>
        CHR ''@'' \<notin> set (local @ domain @ tld) \<and> \<not> list_ex py_isspace s)"

section \<open>The booking dialogue\<close>

subsection \<open>Data\<close>

text \<open>\<open>BookingInfo\<close>: the five fields the extractor returns, all strings.\<close>

record booking_info =
  name :: string
  email :: string
  service :: string
  date :: string
  time :: string

text \<open>\<open>getattr(booking_info, field, "")\<close>.\<close>

definition getattr :: "booking_info \<Rightarrow> string \<Rightarrow> string" where
  "getattr bi field =
     (if field = ''name'' then name bi
      else if field = ''email'' then email bi
      else if field = ''service'' then service bi
      else if field = ''date'' then date bi
      else if field = ''time'' then time bi
      else [])"

record turn =
  role :: string
  content :: string

text \<open>
  The session dictionary: the key \<open>conversation_history\<close>, the key \<open>booking_in_progress\<close>
  and the keys of the five fields; \<open>None\<close> is an absent key.
\<close>

record session =
  conversation_history :: "turn list option"
  booking_in_progress :: "bool option"
  slots :: "string \<rightharpoonup> string"

text \<open>
  What \<open>booking_chain.invoke\<close> does with the combined input: it returns a
  \<open>BookingInfo\<close>, or it raises pydantic's \<open>ValidationError\<close> (kept here as the first
  location component of each of its errors, the name of the field), the
  \<open>OutputParserException\<close> of the output parser, or another exception.
\<close>

datatype extraction =
    Parsed booking_info
  | ValidationError "string list"
  | OutputParserException
  | Failure

text \<open>
  The chain of the program is \<open>booking_prompt | llm | parser\<close>. The call of the language
  model with the filled prompt gives a text or raises. \<open>PydanticOutputParser\<close> reads the
  text as JSON and validates the object against \<open>BookingInfo\<close>; it catches the error of
  the JSON reader and pydantic's \<open>ValidationError\<close> and raises \<open>OutputParserException\<close>
  in their place. Reading and validating are one parameter here, which gives the
  \<open>BookingInfo\<close>, the fields found wrong, or that the text is not JSON.
\<close>

datatype validation = Valid booking_info | Invalid "string list" | NotJson

definition pydantic_parser :: "(string \<Rightarrow> validation) \<Rightarrow> string \<Rightarrow> extraction" where
  "pydantic_parser model_validate text =
     (case model_validate text of
        Valid bi \<Rightarrow> Parsed bi
      | Invalid error_fields \<Rightarrow> OutputParserException
      | NotJson \<Rightarrow> OutputParserException)"

definition assembled_chain ::
  "(string \<Rightarrow> string option) \<Rightarrow> (string \<Rightarrow> validation) \<Rightarrow> string \<Rightarrow> extraction" where
  "assembled_chain llm model_validate input =
     (case llm input of
        None \<Rightarrow> Failure
      | Some text \<Rightarrow> pydantic_parser model_validate text)"

definition required_fields :: "string list" where
  "required_fields = [''name'', ''email'', ''service'', ''date'', ''time'']"

definition bad_values :: "string list" where
  "bad_values =
     ['''', ''john doe'', ''your name'', ''name'', ''example'', ''abc@example.com'',
      ''johndoe@example.com'', ''johndoe@example.com'', ''john@example.com'',
      ''someone@example.com'', ''user'', ''user@gmail.com'', ''user@example.com'',
      ''unknown'', ''unknown@gmail.com'', ''You didn't mention your name'',
      ''You didn't mention your email'']"

definition booking_keywords :: "string list" where
  "booking_keywords =
     [''book'', ''appointment'', ''schedule'', ''reserve'', ''meeting'', ''session'', ''therapy'']"

subsection \<open>Placeholder detection and missing fields\<close>

text \<open>\<open>value.strip().lower() in bad_values\<close>.\<close>

definition normalized :: "string \<Rightarrow> string" where
  "normalized v = lower (strip v)"

definition placeholder :: "string \<Rightarrow> bool" where
  "placeholder v \<longleftrightarrow> normalized v \<in> set bad_values"

text \<open>The first loop over \<open>required_fields\<close>, appending to \<open>missing_fields\<close>.\<close>

fun flag_placeholders :: "string list \<Rightarrow> booking_info \<Rightarrow> string list \<Rightarrow> string list" where
  "flag_placeholders [] bi missing = missing"
| "flag_placeholders (field # more_fields) bi missing =
     flag_placeholders more_fields bi
       (if placeholder (getattr bi field) then missing @ [field] else missing)"

text \<open>The three validation checks that follow it, in the order date, time, email.\<close>

definition missing_fields :: "booking_info \<Rightarrow> string list" where
  "missing_fields bi =
     (let m0 = flag_placeholders required_fields bi [];
          m1 = (if ''date'' \<notin> set m0 \<and> \<not> validate_date (date bi) then m0 @ [''date''] else m0);
          m2 = (if ''time'' \<notin> set m1 \<and> \<not> validate_time (time bi) then m1 @ [''time''] else m1);
          m3 = (if ''email'' \<notin> set m2 \<and> \<not> is_valid_email (email bi) then m2 @ [''email''] else m2)
      in m3)"

text \<open>
  A list of field names is in the fixed field order: it lists its names once each, in
  the order of \<open>required_fields\<close>.
\<close>

definition in_field_order :: "string list \<Rightarrow> bool" where
  "in_field_order xs \<longleftrightarrow> xs = filter (\<lambda>f. f \<in> set xs) required_fields"

text \<open>The second loop: every value that is not a placeholder is stored, stripped.\<close>

fun store_fields :: "string list \<Rightarrow> booking_info \<Rightarrow> session \<Rightarrow> session" where
  "store_fields [] bi s = s"
| "store_fields (field # more_fields) bi s =
     store_fields more_fields bi
       (let v = strip (getattr bi field)
        in if lower v \<notin> set bad_values then s\<lparr>slots := (slots s)(field \<mapsto> v)\<rparr> else s)"

subsection \<open>The booking link\<close>

text \<open>UTF-8 of a code point below 256.\<close>

definition utf8 :: "char \<Rightarrow> nat list" where
  "utf8 c = (if code c < 128 then [code c] else [192 + code c div 64, 128 + code c mod 64])"

definition hex_digit :: "nat \<Rightarrow> char" where
  "hex_digit n = (if n < 10 then char_of (48 + n) else char_of (55 + n))"

definition always_safe :: "nat \<Rightarrow> bool" where
  "always_safe b \<longleftrightarrow>
     (65 \<le> b \<and> b \<le> 90) \<or> (97 \<le> b \<and> b \<le> 122) \<or> (48 \<le> b \<and> b \<le> 57) \<or>
     b = 95 \<or> b = 46 \<or> b = 45 \<or> b = 126"

text \<open>
  \<open>urllib.parse.quote_plus(s)\<close> with no further safe characters: each byte of the UTF-8
  of \<open>s\<close> is kept when it is a letter, a digit or one of \<^verbatim>\<open>_.-~\<close>, a space becomes
  \<^verbatim>\<open>+\<close>, any other byte becomes \<^verbatim>\<open>%XX\<close> in upper-case hexadecimal.
\<close>

definition quote_byte :: "nat \<Rightarrow> string" where
  "quote_byte b =
     (if b = 32 then ''+''
      else if always_safe b then [char_of b]
      else [CHR ''%'', hex_digit (b div 16), hex_digit (b mod 16)])"

definition quote_plus :: "string \<Rightarrow> string" where
  "quote_plus s = concat (map quote_byte (concat (map utf8 s)))"

text \<open>\<open>urllib.parse.urlencode\<close> of a dictionary of strings, in the order of its items.\<close>

definition urlencode :: "(string \<times> string) list \<Rightarrow> string" where
  "urlencode query = join ''&'' (map (\<lambda>(k, v). quote_plus k @ ''='' @ quote_plus v) query)"

text \<open>
  \<open>urljoin(base, ref)\<close> for a base \<^verbatim>\<open>scheme://host\<close> with a path of plain segments or none,
  the scheme \<open>http\<close> or \<open>https\<close> in any case, no query and no fragment, and a reference
  that is one plain segment: the scheme comes out in lower case, the reference takes the
  place of the last segment of the path of the base, and a base without a path counts as
  one with the path \<open>/\<close>.
\<close>

definition urljoin :: "string \<Rightarrow> string \<Rightarrow> string" where
  "urljoin base ref =
     (let scheme = takeWhile (\<lambda>c. c \<noteq> CHR '':'') base;
          rest = drop (length scheme + 3) base;
          netloc = takeWhile (\<lambda>c. c \<noteq> CHR ''/'') rest;
          path = dropWhile (\<lambda>c. c \<noteq> CHR ''/'') rest;
          dir = rev (dropWhile (\<lambda>c. c \<noteq> CHR ''/'') (rev path))
      in lower scheme @ ''://'' @ netloc @ (if dir = [] then ''/'' else dir) @ ref)"

text \<open>
  \<open>request.host_url\<close> as Werkzeug builds it from the scheme and the host of the
  request, \<^verbatim>\<open>http://host/\<close> or \<^verbatim>\<open>https://host/\<close>; the hosts taken here are a name or an
  address of letters, digits, dots and hyphens, with or without a port.
\<close>

definition host_char :: "char \<Rightarrow> bool" where
  "host_char c \<longleftrightarrow> ascii_alnum (code c) \<or> c = CHR ''.'' \<or> c = CHR ''-'' \<or> c = CHR '':''"

definition is_host_url :: "string \<Rightarrow> bool" where
  "is_host_url u \<longleftrightarrow>
     (let rest = (if starts_with ''http://'' u then drop 7 u
                  else if starts_with ''https://'' u then drop 8 u else [])
      in 2 \<le> length rest \<and> last rest = CHR ''/'' \<and> list_all host_char (butlast rest))"

definition booking_url :: "string \<Rightarrow> (string \<times> string) list \<Rightarrow> string" where
  "booking_url host_url query_params = urljoin host_url ''book'' @ ''?'' @ urlencode query_params"

definition link_reply :: "string \<Rightarrow> string" where
  "link_reply url =
     ''You can complete your booking here: <a href='' @ [CHR 0x27] @ url @ [CHR 0x27] @
     '' target='' @ [CHR 0x27] @ ''_blank'' @ [CHR 0x27] @ ''>'' @ url @ ''</a>''"

subsection \<open>Replies\<close>

definition missing_reply :: "string list \<Rightarrow> string" where
  "missing_reply missing = ''Sure! To proceed, please provide your '' @ join '', '' missing @ ''.''"

definition invalid_reply :: "string list \<Rightarrow> string" where
  "invalid_reply error_fields =
     ''Missing or invalid: '' @ join '', '' error_fields @ ''. Please provide them.''"

definition generic_reply :: string where
  "generic_reply = ''Sorry, I couldn't understand all the booking details. Could you please provide your name, email, preferred date, and time?''"

subsection \<open>The route \<open>/get\<close>\<close>

definition get_memory :: "session \<Rightarrow> turn list" where
  "get_memory s = (case conversation_history s of None \<Rightarrow> [] | Some h \<Rightarrow> h)"

definition save_memory :: "turn list \<Rightarrow> session \<Rightarrow> session" where
  "save_memory history s = s\<lparr>conversation_history := Some history\<rparr>"

text \<open>
  \<open>conversation_history.append\<close> changes the list that \<open>get_memory\<close> returned: the list
  of the session when the key is there, a fresh list otherwise.
\<close>

definition append_in_place :: "turn \<Rightarrow> session \<Rightarrow> session" where
  "append_in_place t s =
     (case conversation_history s of
        None \<Rightarrow> s
      | Some h \<Rightarrow> s\<lparr>conversation_history := Some (h @ [t])\<rparr>)"

definition is_booking_flow :: "session \<Rightarrow> string \<Rightarrow> bool" where
  "is_booking_flow s msg \<longleftrightarrow>
     list_ex (\<lambda>word. str_in word (lower msg)) booking_keywords \<or>
     booking_in_progress s = Some True"

definition session_get :: "session \<Rightarrow> string \<Rightarrow> string" where
  "session_get s k = (case slots s k of None \<Rightarrow> [] | Some v \<Rightarrow> v)"

definition combined_input :: "session \<Rightarrow> string \<Rightarrow> string" where
  "combined_input s msg =
     (let existing_info = map (\<lambda>k. (k, session_get s k)) [''name'', ''email'', ''service'', ''date'', ''time'']
      in join '' '' (map (\<lambda>(k, v). ''My '' @ k @ '' is '' @ v @ ''.'')
                        (filter (\<lambda>(k, v). v \<noteq> []) existing_info)) @ '' '' @ msg)"

definition finish :: "turn list \<Rightarrow> string \<Rightarrow> session \<Rightarrow> session \<times> (py_error + string)" where
  "finish history reply s =
     (save_memory (history @ [\<lparr>role = ''assistant'', content = reply\<rparr>]) s, Inr reply)"

text \<open>
  The two handlers: \<open>except ValidationError\<close> lists the fields of the error, \<open>except
  Exception\<close> gives the fixed reply for everything else.
  The body of the \<open>try\<close> once the extractor has returned. Reading a field of the session
  that is absent raises \<open>KeyError\<close>, which the last handler turns into the generic reply.
\<close>

definition complete_booking :: "string \<Rightarrow> turn list \<Rightarrow> session \<Rightarrow> session \<times> (py_error + string)" where
  "complete_booking host_url history s =
     (let s' = s\<lparr>booking_in_progress := Some False\<rparr>
      in case (slots s' ''name'', slots s' ''email'', slots s' ''service'', slots s' ''date'',
               slots s' ''time'') of
           (Some n, Some e, Some sv, Some d, Some t) \<Rightarrow>
             finish history
               (link_reply (booking_url host_url
                  [(''name'', n), (''email'', e), (''service'', sv), (''date'', d), (''time'', t)])) s'
         | _ \<Rightarrow> finish history generic_reply s')"

definition merge :: "string \<Rightarrow> turn list \<Rightarrow> booking_info \<Rightarrow> session \<Rightarrow> session \<times> (py_error + string)" where
  "merge host_url history bi s =
     (let missing = missing_fields bi;
          s' = store_fields required_fields bi s
      in if missing \<noteq> [] then finish history (missing_reply missing) s'
         else complete_booking host_url history s')"

definition booking_turn ::
  "(string \<Rightarrow> extraction) \<Rightarrow> string \<Rightarrow> turn list \<Rightarrow> session \<Rightarrow> string \<Rightarrow> session \<times> (py_error + string)" where
  "booking_turn booking_chain host_url history s0 msg =
     (let s = s0\<lparr>booking_in_progress := Some True\<rparr>
      in case booking_chain (combined_input s msg) of
           Parsed bi \<Rightarrow> merge host_url history bi s
         | ValidationError error_fields \<Rightarrow> finish history (invalid_reply error_fields) s
         | OutputParserException \<Rightarrow> finish history generic_reply s
         | Failure \<Rightarrow> finish history generic_reply s)"

text \<open>The general question: the last six turns, one a line, and the message once more.\<close>

definition render :: "turn \<Rightarrow> string" where
  "render m = role m @ '': '' @ content m"

definition last6 :: "'a list \<Rightarrow> 'a list" where
  "last6 xs = drop (length xs - 6) xs"

definition full_input :: "turn list \<Rightarrow> string \<Rightarrow> string" where
  "full_input history msg =
     join [CHR 0x0A] (map render (last6 history)) @ [CHR 0x0A] @ ''user: '' @ msg"

definition qa_turn ::
  "(string \<Rightarrow> string option) \<Rightarrow> turn list \<Rightarrow> session \<Rightarrow> string \<Rightarrow> session \<times> (py_error + string)" where
  "qa_turn rag_chain history s msg =
     (case rag_chain (full_input history msg) of
        None \<Rightarrow> (s, Inl ChainError)
      | Some answer \<Rightarrow> finish history answer s)"

text \<open>
  One request: the session and the message, the two chains and the host of the request
  as parameters; the session after the request and the reply, or the exception that
  leaves the handler.
\<close>

definition chat ::
  "(string \<Rightarrow> extraction) \<Rightarrow> (string \<Rightarrow> string option) \<Rightarrow> string \<Rightarrow> session \<Rightarrow> string
     \<Rightarrow> session \<times> (py_error + string)" where
  "chat booking_chain rag_chain host_url s msg =
     (let u = \<lparr>role = ''user'', content = msg\<rparr>;
          history = get_memory s @ [u];
          s0 = append_in_place u s
      in if is_booking_flow s msg then booking_turn booking_chain host_url history s0 msg
         else qa_turn rag_chain history s0 msg)"

section \<open>Properties\<close>

subsection \<open>Characters and sessions\<close>

lemma code_char_of: "n < 256 \<Longrightarrow> code (char_of n) = n"
  by (simp add: code_def)

lemma code_lt: "code c < 256"
  by (simp add: code_def)

lemma lower_char_not_upper: "\<not> (65 \<le> code (lower_char c) \<and> code (lower_char c) \<le> 90)"
  using code_lt [of c] by (auto simp: lower_char_def code_char_of)

lemma lower_no_upper: "c \<in> set (lower s) \<Longrightarrow> \<not> (65 \<le> code c \<and> code c \<le> 90)"
  using lower_char_not_upper by (auto simp: lower_def)

lemma slots_append_in_place [simp]: "slots (append_in_place t s) = slots s"
  by (simp add: append_in_place_def split: option.splits)

lemma flag_append_in_place [simp]:
  "booking_in_progress (append_in_place t s) = booking_in_progress s"
  by (simp add: append_in_place_def split: option.splits)

lemma slots_finish [simp]: "slots (fst (finish h r s)) = slots s"
  by (simp add: finish_def save_memory_def)

lemma flag_finish [simp]: "booking_in_progress (fst (finish h r s)) = booking_in_progress s"
  by (simp add: finish_def save_memory_def)

lemma snd_finish [simp]: "snd (finish h r s) = Inr r"
  by (simp add: finish_def)

lemma combined_input_cong: "slots s = slots t \<Longrightarrow> combined_input s msg = combined_input t msg"
  by (simp add: combined_input_def session_get_def)

lemma combined_input_entry [simp]:
  "combined_input ((append_in_place t s)\<lparr>booking_in_progress := b\<rparr>) msg = combined_input s msg"
  by (rule combined_input_cong) simp

subsection \<open>The placeholder detector\<close>

text \<open>
  A normalized value has no capital letter, so it is never one of the two entries of
  \<open>bad_values\<close> that have one: the detector decides on the fifteen entries before them.
\<close>

lemma normalized_no_capital_Y: "CHR ''Y'' \<notin> set (normalized v)"
  using lower_no_upper [of "CHR ''Y''" "strip v"] by (auto simp: normalized_def code_def)

lemma placeholder_lower_entries:
  "placeholder v \<longleftrightarrow> normalized v \<in> set (take 15 bad_values)"
  using normalized_no_capital_Y [of v] by (auto simp: placeholder_def bad_values_def)

text \<open>
  C1. The claim has every case and whitespace variant of an entry of the Bad-Value Set
  reported bad, the two entries "You didn't mention your name" and "You didn't mention
  your email" among them. The detector compares the lower-cased value with the entries
  as they are written, so these two entries, which are in the list, are themselves
  reported good.
\<close>

theorem placeholder_misses_capitalised_entries:
  "''You didn't mention your name'' \<in> set bad_values \<and>
   \<not> placeholder ''You didn't mention your name'' \<and>
   ''You didn't mention your email'' \<in> set bad_values \<and>
   \<not> placeholder ''You didn't mention your email''"
  by code_simp

subsection \<open>The mode router\<close>

lemma starts_with_iff: "starts_with w s \<longleftrightarrow> (\<exists>q. s = w @ q)"
  by (induction w s rule: starts_with.induct) auto

lemma str_in_iff: "str_in w s \<longleftrightarrow> (\<exists>p q. s = p @ w @ q)"
proof (induction s)
  case Nil
  then show ?case by simp
next
  case (Cons c cs)
  show ?case
  proof
    assume "str_in w (c # cs)"
    then consider "starts_with w (c # cs)" | "str_in w cs" by auto
    then show "\<exists>p q. c # cs = p @ w @ q"
    proof cases
      case 1
      then obtain q where "c # cs = w @ q" by (auto simp: starts_with_iff)
      then have "c # cs = [] @ w @ q" by simp
      then show ?thesis by blast
    next
      case 2
      then obtain p q where "cs = p @ w @ q" using Cons.IH by auto
      then have "c # cs = (c # p) @ w @ q" by simp
      then show ?thesis by blast
    qed
  next
    assume "\<exists>p q. c # cs = p @ w @ q"
    then obtain p q where pq: "c # cs = p @ w @ q" by auto
    show "str_in w (c # cs)"
    proof (cases p)
      case Nil
      then have "starts_with w (c # cs)" using pq by (auto simp: starts_with_iff)
      then show ?thesis by simp
    next
      case (Cons a p')
      then have "cs = p' @ w @ q" using pq by simp
      then have "str_in w cs" using Cons.IH by blast
      then show ?thesis by simp
    qed
  qed
qed

text \<open>
  C8. The booking branch is taken exactly when the lower-cased message has one of the
  seven keywords as a substring or the flag \<open>booking_in_progress\<close> of the session is
  set; a turn that takes the other branch leaves the five slots and the flag as they were.
\<close>

theorem booking_branch_iff_keyword_or_flag:
  "(is_booking_flow s msg \<longleftrightarrow>
      (\<exists>w \<in> set booking_keywords. \<exists>p q. lower msg = p @ w @ q) \<or>
      booking_in_progress s = Some True) \<and>
   chat booking_chain rag_chain host_url s msg =
     (if is_booking_flow s msg
      then booking_turn booking_chain host_url
             (get_memory s @ [\<lparr>role = ''user'', content = msg\<rparr>])
             (append_in_place \<lparr>role = ''user'', content = msg\<rparr> s) msg
      else qa_turn rag_chain (get_memory s @ [\<lparr>role = ''user'', content = msg\<rparr>])
             (append_in_place \<lparr>role = ''user'', content = msg\<rparr> s) msg) \<and>
   (\<not> is_booking_flow s msg \<longrightarrow>
      slots (fst (chat booking_chain rag_chain host_url s msg)) = slots s \<and>
      booking_in_progress (fst (chat booking_chain rag_chain host_url s msg)) =
        booking_in_progress s)"
proof (intro conjI impI)
  show "is_booking_flow s msg \<longleftrightarrow>
      (\<exists>w \<in> set booking_keywords. \<exists>p q. lower msg = p @ w @ q) \<or>
      booking_in_progress s = Some True"
    by (simp add: is_booking_flow_def list_ex_iff str_in_iff)
next
  show "chat booking_chain rag_chain host_url s msg =
     (if is_booking_flow s msg
      then booking_turn booking_chain host_url
             (get_memory s @ [\<lparr>role = ''user'', content = msg\<rparr>])
             (append_in_place \<lparr>role = ''user'', content = msg\<rparr> s) msg
      else qa_turn rag_chain (get_memory s @ [\<lparr>role = ''user'', content = msg\<rparr>])
             (append_in_place \<lparr>role = ''user'', content = msg\<rparr> s) msg)"
    by (simp add: chat_def Let_def)
next
  assume "\<not> is_booking_flow s msg"
  then have c: "chat booking_chain rag_chain host_url s msg =
      qa_turn rag_chain (get_memory s @ [\<lparr>role = ''user'', content = msg\<rparr>])
             (append_in_place \<lparr>role = ''user'', content = msg\<rparr> s) msg"
    by (simp add: chat_def Let_def)
  show "slots (fst (chat booking_chain rag_chain host_url s msg)) = slots s"
    unfolding c by (simp add: qa_turn_def split: option.splits)
  show "booking_in_progress (fst (chat booking_chain rag_chain host_url s msg)) =
        booking_in_progress s"
    unfolding c by (simp add: qa_turn_def split: option.splits)
qed

theorem booking_branch_iff_keyword_or_flag_witness:
  "\<not> is_booking_flow \<lparr>conversation_history = None, booking_in_progress = None, slots = Map.empty\<rparr>
       ''What services do you offer?'' \<and>
   is_booking_flow \<lparr>conversation_history = None, booking_in_progress = None, slots = Map.empty\<rparr>
       ''I want to BOOK a slot'' \<and>
   slots (fst (chat (\<lambda>x. Failure) (\<lambda>q. Some ''We offer therapy.'') ''http://localhost:8080/''
       \<lparr>conversation_history = None, booking_in_progress = None, slots = Map.empty\<rparr>
       ''What services do you offer?'')) = Map.empty \<and>
   booking_in_progress (fst (chat (\<lambda>x. Failure) (\<lambda>q. Some ''We offer therapy.'')
       ''http://localhost:8080/''
       \<lparr>conversation_history = None, booking_in_progress = None, slots = Map.empty\<rparr>
       ''What services do you offer?'')) = None"
proof -
  have q: "\<not> is_booking_flow
      \<lparr>conversation_history = None, booking_in_progress = None, slots = Map.empty\<rparr>
      ''What services do you offer?''"
    by code_simp
  have b: "is_booking_flow
      \<lparr>conversation_history = None, booking_in_progress = None, slots = Map.empty\<rparr>
      ''I want to BOOK a slot''"
    by code_simp
  from q booking_branch_iff_keyword_or_flag
      [of "\<lparr>conversation_history = None, booking_in_progress = None, slots = Map.empty\<rparr>"
          "''What services do you offer?''" "\<lambda>x. Failure" "\<lambda>q. Some ''We offer therapy.''"
          "''http://localhost:8080/''"]
  have "slots (fst (chat (\<lambda>x. Failure) (\<lambda>q. Some ''We offer therapy.'') ''http://localhost:8080/''
       \<lparr>conversation_history = None, booking_in_progress = None, slots = Map.empty\<rparr>
       ''What services do you offer?'')) =
     slots \<lparr>conversation_history = None, booking_in_progress = None, slots = Map.empty\<rparr> \<and>
   booking_in_progress (fst (chat (\<lambda>x. Failure) (\<lambda>q. Some ''We offer therapy.'')
       ''http://localhost:8080/''
       \<lparr>conversation_history = None, booking_in_progress = None, slots = Map.empty\<rparr>
       ''What services do you offer?'')) =
     booking_in_progress
       \<lparr>conversation_history = None, booking_in_progress = None, slots = Map.empty\<rparr>"
    by blast
  then show ?thesis using q b by simp
qed

subsection \<open>The booking turn\<close>

lemma getattr_fields [simp]:
  "getattr bi ''name'' = name bi" "getattr bi ''email'' = email bi"
  "getattr bi ''service'' = service bi" "getattr bi ''date'' = date bi"
  "getattr bi ''time'' = time bi"
  by (simp_all add: getattr_def)

lemma flag_placeholders_filter:
  "flag_placeholders fs bi m = m @ filter (\<lambda>f. placeholder (getattr bi f)) fs"
  by (induction fs arbitrary: m) auto

lemma in_placeholders:
  "''date'' \<in> set (filter (\<lambda>f. placeholder (getattr bi f)) required_fields) \<longleftrightarrow> placeholder (date bi)"
  "''time'' \<in> set (filter (\<lambda>f. placeholder (getattr bi f)) required_fields) \<longleftrightarrow> placeholder (time bi)"
  "''email'' \<in> set (filter (\<lambda>f. placeholder (getattr bi f)) required_fields) \<longleftrightarrow> placeholder (email bi)"
  by (simp_all only: set_filter mem_Collect_eq) (simp_all add: required_fields_def getattr_def)

lemma missing_fields_split:
  "missing_fields bi =
     filter (\<lambda>f. placeholder (getattr bi f)) required_fields @
     (if \<not> placeholder (date bi) \<and> \<not> validate_date (date bi) then [''date''] else []) @
     (if \<not> placeholder (time bi) \<and> \<not> validate_time (time bi) then [''time''] else []) @
     (if \<not> placeholder (email bi) \<and> \<not> is_valid_email (email bi) then [''email''] else [])"
  unfolding missing_fields_def flag_placeholders_filter Let_def
  by (simp add: in_placeholders del: set_filter)

lemma no_missing_no_placeholder:
  "missing_fields bi = [] \<Longrightarrow> f \<in> set required_fields \<Longrightarrow> \<not> placeholder (getattr bi f)"
  by (auto simp: missing_fields_split filter_empty_conv)

lemma store_fields_slots:
  "slots (store_fields fs bi s) f =
     (if f \<in> set fs \<and> \<not> placeholder (getattr bi f) then Some (strip (getattr bi f)) else slots s f)"
  by (induction fs arbitrary: s) (auto simp: Let_def placeholder_def normalized_def)

lemma store_fields_flag [simp]:
  "booking_in_progress (store_fields fs bi s) = booking_in_progress s"
  by (induction fs arbitrary: s) (auto simp: Let_def)

lemma chat_booking:
  "is_booking_flow s msg \<Longrightarrow>
   chat booking_chain rag_chain host_url s msg =
     (case booking_chain (combined_input s msg) of
        Parsed bi \<Rightarrow>
          merge host_url (get_memory s @ [\<lparr>role = ''user'', content = msg\<rparr>]) bi
            ((append_in_place \<lparr>role = ''user'', content = msg\<rparr> s)\<lparr>booking_in_progress := Some True\<rparr>)
      | ValidationError error_fields \<Rightarrow>
          finish (get_memory s @ [\<lparr>role = ''user'', content = msg\<rparr>]) (invalid_reply error_fields)
            ((append_in_place \<lparr>role = ''user'', content = msg\<rparr> s)\<lparr>booking_in_progress := Some True\<rparr>)
      | OutputParserException \<Rightarrow>
          finish (get_memory s @ [\<lparr>role = ''user'', content = msg\<rparr>]) generic_reply
            ((append_in_place \<lparr>role = ''user'', content = msg\<rparr> s)\<lparr>booking_in_progress := Some True\<rparr>)
      | Failure \<Rightarrow>
          finish (get_memory s @ [\<lparr>role = ''user'', content = msg\<rparr>]) generic_reply
            ((append_in_place \<lparr>role = ''user'', content = msg\<rparr> s)\<lparr>booking_in_progress := Some True\<rparr>))"
  by (simp add: chat_def booking_turn_def Let_def)

lemma slots_complete [simp]: "slots (fst (complete_booking host_url h s)) = slots s"
  by (simp add: complete_booking_def Let_def split: option.splits)

lemma slots_merge:
  "slots (fst (merge host_url h bi s)) = slots (store_fields required_fields bi s)"
  by (simp add: merge_def Let_def)

lemma quote_plus_keys:
  "quote_plus ''name'' = ''name''" "quote_plus ''email'' = ''email''"
  "quote_plus ''service'' = ''service''" "quote_plus ''date'' = ''date''"
  "quote_plus ''time'' = ''time''"
  by code_simp+

lemma complete_booking_all:
  assumes "slots s ''name'' = Some n" "slots s ''email'' = Some e" "slots s ''service'' = Some sv"
    "slots s ''date'' = Some d" "slots s ''time'' = Some t"
  shows "complete_booking host_url h s =
     finish h (link_reply (urljoin host_url ''book'' @ ''?name='' @ quote_plus n @
        ''&email='' @ quote_plus e @ ''&service='' @ quote_plus sv @ ''&date='' @ quote_plus d @
        ''&time='' @ quote_plus t))
       (s\<lparr>booking_in_progress := Some False\<rparr>)"
  using assms
  by (simp add: complete_booking_def Let_def booking_url_def urlencode_def quote_plus_keys)

lemma order_generic:
  fixes a b c d e :: 'a
  assumes "distinct [a, b, c, d, e]"
  shows "(let xs = (if pa then [a] else []) @ (if pb then [b] else []) @ (if pc then [c] else []) @
                   (if pd then [d] else []) @ (if pe then [e] else []) @
                   (if \<not> pd \<and> vd then [d] else []) @ (if \<not> pe \<and> ve then [e] else []) @
                   (if \<not> pb \<and> vb then [b] else [])
          in xs = filter (\<lambda>f. f \<in> set xs) [a, b, c, d, e]) \<longleftrightarrow>
         \<not> (\<not> pb \<and> vb \<and> (pc \<or> pd \<or> pe \<or> vd \<or> ve)) \<and> \<not> (\<not> pd \<and> vd \<and> pe)"
  using assms
  by (cases pa; cases pb; cases pc; cases pd; cases pe; cases vd; cases ve; cases vb) (auto simp: Let_def)

lemma filter5:
  "filter P [a, b, c, d, e] =
     (if P a then [a] else []) @ (if P b then [b] else []) @ (if P c then [c] else []) @
     (if P d then [d] else []) @ (if P e then [e] else [])"
  by simp

lemma missing_fields_in_order_iff:
  "in_field_order (missing_fields bi) \<longleftrightarrow>
     \<not> (\<not> placeholder (email bi) \<and> \<not> is_valid_email (email bi) \<and>
          (placeholder (service bi) \<or> placeholder (date bi) \<or> placeholder (time bi) \<or>
           \<not> validate_date (date bi) \<or> \<not> validate_time (time bi))) \<and>
     \<not> (\<not> placeholder (date bi) \<and> \<not> validate_date (date bi) \<and> placeholder (time bi))"
proof -
  have d: "distinct [''name'', ''email'', ''service'', ''date'', ''time'']" by simp
  have m: "missing_fields bi =
     (if placeholder (name bi) then [''name''] else []) @
     (if placeholder (email bi) then [''email''] else []) @
     (if placeholder (service bi) then [''service''] else []) @
     (if placeholder (date bi) then [''date''] else []) @
     (if placeholder (time bi) then [''time''] else []) @
     (if \<not> placeholder (date bi) \<and> \<not> validate_date (date bi) then [''date''] else []) @
     (if \<not> placeholder (time bi) \<and> \<not> validate_time (time bi) then [''time''] else []) @
     (if \<not> placeholder (email bi) \<and> \<not> is_valid_email (email bi) then [''email''] else [])"
    unfolding missing_fields_split required_fields_def filter5 getattr_fields by simp
  show ?thesis
    using order_generic [OF d, of "placeholder (name bi)" "placeholder (email bi)"
        "placeholder (service bi)" "placeholder (date bi)" "placeholder (time bi)"
        "\<not> validate_date (date bi)" "\<not> validate_time (time bi)" "\<not> is_valid_email (email bi)"]
    unfolding in_field_order_def required_fields_def Let_def m [symmetric] by blast
qed

text \<open>
  C2. The claim has the names of the follow-up prompt in the fixed order name, email,
  service, date, time however a field was flagged. In the code the fields flagged by
  placeholder detection come first, in the fixed order, and the fields flagged by
  syntactic validation are appended after them in the order date, time, email. The list
  is in the fixed order exactly when no email flagged by validation stands with a missing
  service, date or time, and no date flagged by validation with a placeholder time.
\<close>

theorem missing_fields_listing:
  "missing_fields bi =
     filter (\<lambda>f. placeholder (getattr bi f)) required_fields @
     (if \<not> placeholder (date bi) \<and> \<not> validate_date (date bi) then [''date''] else []) @
     (if \<not> placeholder (time bi) \<and> \<not> validate_time (time bi) then [''time''] else []) @
     (if \<not> placeholder (email bi) \<and> \<not> is_valid_email (email bi) then [''email''] else []) \<and>
   (in_field_order (missing_fields bi) \<longleftrightarrow>
     \<not> (\<not> placeholder (email bi) \<and> \<not> is_valid_email (email bi) \<and>
          (placeholder (service bi) \<or> placeholder (date bi) \<or> placeholder (time bi) \<or>
           \<not> validate_date (date bi) \<or> \<not> validate_time (time bi))) \<and>
     \<not> (\<not> placeholder (date bi) \<and> \<not> validate_date (date bi) \<and> placeholder (time bi))) \<and>
   (is_booking_flow s msg \<and> booking_chain (combined_input s msg) = Parsed bi \<and>
    missing_fields bi \<noteq> [] \<longrightarrow>
      snd (chat booking_chain rag_chain host_url s msg) =
        Inr (''Sure! To proceed, please provide your '' @ join '', '' (missing_fields bi) @ ''.''))"
proof (intro conjI impI)
  show "missing_fields bi =
     filter (\<lambda>f. placeholder (getattr bi f)) required_fields @
     (if \<not> placeholder (date bi) \<and> \<not> validate_date (date bi) then [''date''] else []) @
     (if \<not> placeholder (time bi) \<and> \<not> validate_time (time bi) then [''time''] else []) @
     (if \<not> placeholder (email bi) \<and> \<not> is_valid_email (email bi) then [''email''] else [])"
    by (rule missing_fields_split)
next
  show "in_field_order (missing_fields bi) \<longleftrightarrow>
     \<not> (\<not> placeholder (email bi) \<and> \<not> is_valid_email (email bi) \<and>
          (placeholder (service bi) \<or> placeholder (date bi) \<or> placeholder (time bi) \<or>
           \<not> validate_date (date bi) \<or> \<not> validate_time (time bi))) \<and>
     \<not> (\<not> placeholder (date bi) \<and> \<not> validate_date (date bi) \<and> placeholder (time bi))"
    by (rule missing_fields_in_order_iff)
next
  assume a: "is_booking_flow s msg \<and> booking_chain (combined_input s msg) = Parsed bi \<and>
    missing_fields bi \<noteq> []"
  then show "snd (chat booking_chain rag_chain host_url s msg) =
        Inr (''Sure! To proceed, please provide your '' @ join '', '' (missing_fields bi) @ ''.'')"
    by (simp add: chat_booking merge_def Let_def missing_reply_def)
qed

theorem missing_fields_listing_witness:
  "missing_fields \<lparr>name = ''John Doe'', email = ''alice@mail.com'', service = ''Therapy'',
                    date = ''2025-03-10'', time = ''half past two''\<rparr> = [''name'', ''time''] \<and>
   in_field_order (missing_fields \<lparr>name = ''John Doe'', email = ''alice@mail.com'',
                    service = ''Therapy'', date = ''2025-03-10'', time = ''half past two''\<rparr>) \<and>
   snd (chat (\<lambda>x. Parsed \<lparr>name = ''John Doe'', email = ''alice@mail.com'', service = ''Therapy'',
                    date = ''2025-03-10'', time = ''half past two''\<rparr>) (\<lambda>q. None)
          ''http://localhost:8080/''
          \<lparr>conversation_history = None, booking_in_progress = None, slots = Map.empty\<rparr>
          ''book an appointment'') =
     Inr ''Sure! To proceed, please provide your name, time.''"
proof -
  let ?bi = "\<lparr>name = ''John Doe'', email = ''alice@mail.com'', service = ''Therapy'',
                    date = ''2025-03-10'', time = ''half past two''\<rparr>"
  let ?s = "\<lparr>conversation_history = None, booking_in_progress = None, slots = Map.empty\<rparr>"
  have m: "missing_fields ?bi = [''name'', ''time'']" by code_simp
  have b: "is_booking_flow ?s ''book an appointment''" by code_simp
  have p: "\<not> placeholder (email ?bi)" "is_valid_email (email ?bi)" "\<not> placeholder (date ?bi)"
    "validate_date (date ?bi)" "placeholder (name ?bi)" "\<not> placeholder (time ?bi)"
    "\<not> validate_time (time ?bi)"
    by code_simp+
  note t = missing_fields_listing [of ?bi ?s "''book an appointment''" "\<lambda>x. Parsed ?bi"
      "\<lambda>q. None" "''http://localhost:8080/''"]
  have o: "in_field_order (missing_fields ?bi)"
    using t p by blast
  have r: "snd (chat (\<lambda>x. Parsed ?bi) (\<lambda>q. None) ''http://localhost:8080/'' ?s ''book an appointment'') =
      Inr (''Sure! To proceed, please provide your '' @ join '', '' (missing_fields ?bi) @ ''.'')"
    using t [THEN conjunct2, THEN conjunct2] b m by simp
  show ?thesis using m o r by simp
qed

text \<open>
  The claim as it is written fails: with a date and an email that are no placeholders
  and fail validation, the prompt names the date before the email.
\<close>

theorem missing_fields_out_of_order:
  "missing_fields \<lparr>name = ''Alice'', email = ''alice-at-mail'', service = ''Therapy'',
                    date = ''tomorrow'', time = ''14:30''\<rparr> = [''date'', ''email''] \<and>
   1 < length (missing_fields \<lparr>name = ''Alice'', email = ''alice-at-mail'', service = ''Therapy'',
                    date = ''tomorrow'', time = ''14:30''\<rparr>) \<and>
   \<not> in_field_order (missing_fields \<lparr>name = ''Alice'', email = ''alice-at-mail'',
                    service = ''Therapy'', date = ''tomorrow'', time = ''14:30''\<rparr>) \<and>
   snd (chat (\<lambda>x. Parsed \<lparr>name = ''Alice'', email = ''alice-at-mail'', service = ''Therapy'',
                    date = ''tomorrow'', time = ''14:30''\<rparr>) (\<lambda>q. None) ''http://localhost:8080/''
          \<lparr>conversation_history = None, booking_in_progress = None, slots = Map.empty\<rparr>
          ''book an appointment'') =
     Inr ''Sure! To proceed, please provide your date, email.''"
  by code_simp

text \<open>
  C5. After a successful extraction each of the five fields whose normalized value is
  not in the Bad-Value Set holds the stripped extracted value, whether or not that value
  passes validation, and each other field holds what it held before.
\<close>

theorem merge_stores_every_non_placeholder:
  "is_booking_flow s msg \<Longrightarrow> booking_chain (combined_input s msg) = Parsed bi \<Longrightarrow>
   field \<in> set required_fields \<Longrightarrow>
   slots (fst (chat booking_chain rag_chain host_url s msg)) field =
     (if placeholder (getattr bi field) then slots s field else Some (strip (getattr bi field)))"
  by (simp add: chat_booking slots_merge store_fields_slots)

theorem merge_stores_every_non_placeholder_witness:
  "slots (fst (chat (\<lambda>x. Parsed \<lparr>name = ''John Doe'', email = '' Alice-at-Mail '', service = ''Therapy'',
                    date = ''2025-03-10'', time = ''14:30''\<rparr>) (\<lambda>q. None) ''http://localhost:8080/''
       \<lparr>conversation_history = None, booking_in_progress = Some True,
          slots = [''name'' \<mapsto> ''Alice'', ''email'' \<mapsto> ''alice@mail.com'']\<rparr> ''here you go'')) ''name''
     = Some ''Alice'' \<and>
   slots (fst (chat (\<lambda>x. Parsed \<lparr>name = ''John Doe'', email = '' Alice-at-Mail '', service = ''Therapy'',
                    date = ''2025-03-10'', time = ''14:30''\<rparr>) (\<lambda>q. None) ''http://localhost:8080/''
       \<lparr>conversation_history = None, booking_in_progress = Some True,
          slots = [''name'' \<mapsto> ''Alice'', ''email'' \<mapsto> ''alice@mail.com'']\<rparr> ''here you go'')) ''email''
     = Some ''Alice-at-Mail'' \<and>
   \<not> is_valid_email '' Alice-at-Mail ''"
proof -
  let ?bi = "\<lparr>name = ''John Doe'', email = '' Alice-at-Mail '', service = ''Therapy'',
                    date = ''2025-03-10'', time = ''14:30''\<rparr>"
  let ?s = "\<lparr>conversation_history = None, booking_in_progress = Some True,
          slots = [''name'' \<mapsto> ''Alice'', ''email'' \<mapsto> ''alice@mail.com'']\<rparr>"
  have b: "is_booking_flow ?s ''here you go''" by (simp add: is_booking_flow_def)
  have e: "(\<lambda>x. Parsed ?bi) (combined_input ?s ''here you go'') = Parsed ?bi" by simp
  have f: "''name'' \<in> set required_fields" "''email'' \<in> set required_fields"
    by (simp_all add: required_fields_def)
  have p: "placeholder (getattr ?bi ''name'')" "\<not> placeholder (getattr ?bi ''email'')"
    "strip (getattr ?bi ''email'') = ''Alice-at-Mail''" "\<not> is_valid_email '' Alice-at-Mail ''"
    by code_simp+
  show ?thesis
    using merge_stores_every_non_placeholder [OF b e f(1), of "\<lambda>q. None" "''http://localhost:8080/''"]
      merge_stores_every_non_placeholder [OF b e f(2), of "\<lambda>q. None" "''http://localhost:8080/''"] p
    by simp
qed

lemma assembled_chain_outcomes:
  "assembled_chain llm model_validate x =
     (case llm x of
        None \<Rightarrow> Failure
      | Some text \<Rightarrow>
          (case model_validate text of
             Valid bi \<Rightarrow> Parsed bi
           | Invalid error_fields \<Rightarrow> OutputParserException
           | NotJson \<Rightarrow> OutputParserException))"
  by (simp add: assembled_chain_def pydantic_parser_def split: option.splits validation.splits)

lemma assembled_chain_no_validation_error:
  "assembled_chain llm model_validate x \<noteq> ValidationError error_fields"
  by (simp add: assembled_chain_outcomes split: option.splits validation.splits)

lemma chat_failure:
  assumes "is_booking_flow s msg"
    and "booking_chain (combined_input s msg) = OutputParserException \<or>
         booking_chain (combined_input s msg) = Failure"
  shows "chat booking_chain rag_chain host_url s msg =
     finish (get_memory s @ [\<lparr>role = ''user'', content = msg\<rparr>]) generic_reply
       ((append_in_place \<lparr>role = ''user'', content = msg\<rparr> s)\<lparr>booking_in_progress := Some True\<rparr>)"
  using assms by (auto simp: chat_booking)

text \<open>
  C6. The claim has the flag \<open>booking_in_progress\<close> left as it was when the extractor
  fails, and the reply of a schema failure list the fields. The booking branch sets the
  flag before it calls the extractor, so a turn that entered on a key word with the flag
  \<open>False\<close> or absent ends with the flag \<open>True\<close>. When the chain
  \<open>booking_prompt | llm | parser\<close> does not return a \<open>BookingInfo\<close>, the slots are what they
  were, the flag is \<open>True\<close>, and a reply that is not empty is returned and appended to the
  history after the message; when the call of the model raised, or its text was not
  JSON, the reply is the fixed recovery message.
\<close>

theorem extractor_failure_keeps_slots:
  assumes "is_booking_flow s msg"
    and "\<forall>bi. assembled_chain llm model_validate (combined_input s msg) \<noteq> Parsed bi"
  shows "slots (fst (chat (assembled_chain llm model_validate) rag_chain host_url s msg)) = slots s \<and>
    booking_in_progress (fst (chat (assembled_chain llm model_validate) rag_chain host_url s msg)) =
      Some True \<and>
    (\<exists>reply. reply \<noteq> [] \<and>
       snd (chat (assembled_chain llm model_validate) rag_chain host_url s msg) = Inr reply \<and>
       conversation_history (fst (chat (assembled_chain llm model_validate) rag_chain host_url s msg)) =
         Some (get_memory s @ [\<lparr>role = ''user'', content = msg\<rparr>,
                                \<lparr>role = ''assistant'', content = reply\<rparr>])) \<and>
    (llm (combined_input s msg) = None \<or>
     (\<exists>text. llm (combined_input s msg) = Some text \<and> model_validate text = NotJson) \<longrightarrow>
       snd (chat (assembled_chain llm model_validate) rag_chain host_url s msg) =
         Inr ''Sorry, I couldn't understand all the booking details. Could you please provide your name, email, preferred date, and time?'')"
proof -
  have "assembled_chain llm model_validate (combined_input s msg) = OutputParserException \<or>
      assembled_chain llm model_validate (combined_input s msg) = Failure"
    using assms(2) assembled_chain_no_validation_error [of llm model_validate "combined_input s msg"]
    by (cases "assembled_chain llm model_validate (combined_input s msg)") auto
  then have c: "chat (assembled_chain llm model_validate) rag_chain host_url s msg =
     finish (get_memory s @ [\<lparr>role = ''user'', content = msg\<rparr>]) generic_reply
       ((append_in_place \<lparr>role = ''user'', content = msg\<rparr> s)\<lparr>booking_in_progress := Some True\<rparr>)"
    using assms(1) by (intro chat_failure)
  have g: "generic_reply = ''Sorry, I couldn't understand all the booking details. Could you please provide your name, email, preferred date, and time?''"
    by (simp add: generic_reply_def)
  have n: "generic_reply \<noteq> []" unfolding g by simp
  show ?thesis
    unfolding c using n by (simp add: g [symmetric] finish_def save_memory_def)
qed

theorem extractor_failure_keeps_slots_witness:
  "is_booking_flow \<lparr>conversation_history = None, booking_in_progress = None,
       slots = [''name'' \<mapsto> ''Alice'']\<rparr> ''I want to book'' \<and>
   (\<forall>bi. assembled_chain (\<lambda>x. Some ''{}'') (\<lambda>t. Invalid [''email'', ''date''])
       (combined_input \<lparr>conversation_history = None, booking_in_progress = None,
            slots = [''name'' \<mapsto> ''Alice'']\<rparr> ''I want to book'') \<noteq> Parsed bi) \<and>
   slots (fst (chat (assembled_chain (\<lambda>x. Some ''{}'') (\<lambda>t. Invalid [''email'', ''date'']))
       (\<lambda>q. None) ''http://localhost:8080/''
       \<lparr>conversation_history = None, booking_in_progress = None, slots = [''name'' \<mapsto> ''Alice'']\<rparr>
       ''I want to book'')) = [''name'' \<mapsto> ''Alice''] \<and>
   booking_in_progress (fst (chat (assembled_chain (\<lambda>x. Some ''{}'') (\<lambda>t. Invalid [''email'', ''date'']))
       (\<lambda>q. None) ''http://localhost:8080/''
       \<lparr>conversation_history = None, booking_in_progress = None, slots = [''name'' \<mapsto> ''Alice'']\<rparr>
       ''I want to book'')) = Some True \<and>
   snd (chat (assembled_chain (\<lambda>x. None) (\<lambda>t. NotJson)) (\<lambda>q. None) ''http://localhost:8080/''
       \<lparr>conversation_history = None, booking_in_progress = None, slots = [''name'' \<mapsto> ''Alice'']\<rparr>
       ''I want to book'') =
     Inr ''Sorry, I couldn't understand all the booking details. Could you please provide your name, email, preferred date, and time?''"
proof -
  let ?s = "\<lparr>conversation_history = None, booking_in_progress = None, slots = [''name'' \<mapsto> ''Alice'']\<rparr>"
  have b: "is_booking_flow ?s ''I want to book''" by code_simp
  have f1: "\<forall>bi. assembled_chain (\<lambda>x. Some ''{}'') (\<lambda>t. Invalid [''email'', ''date''])
      (combined_input ?s ''I want to book'') \<noteq> Parsed bi"
    by (simp add: assembled_chain_outcomes)
  have f2: "\<forall>bi. assembled_chain (\<lambda>x. None) (\<lambda>t. NotJson)
      (combined_input ?s ''I want to book'') \<noteq> Parsed bi"
    by (simp add: assembled_chain_outcomes)
  show ?thesis
    using b f1
      extractor_failure_keeps_slots [OF b f1, of "\<lambda>q. None" "''http://localhost:8080/''"]
      extractor_failure_keeps_slots [OF b f2, of "\<lambda>q. None" "''http://localhost:8080/''"]
    by simp
qed

text \<open>
  The claim as it is written fails on a turn that enters the booking branch on a key
  word with the flag \<open>False\<close>: the flag is \<open>True\<close> after the failure. And the schema
  failure of the chain does not reach the handler that lists the fields: the parser
  raises its own exception in the place of pydantic's, and the reply is the fixed
  message.
\<close>

theorem extractor_failure_sets_flag:
  "is_booking_flow \<lparr>conversation_history = None, booking_in_progress = Some False,
       slots = [''name'' \<mapsto> ''Alice'']\<rparr> ''I want to book'' \<and>
   booking_in_progress (fst (chat (assembled_chain (\<lambda>x. None) (\<lambda>t. NotJson)) (\<lambda>q. None)
       ''http://localhost:8080/''
       \<lparr>conversation_history = None, booking_in_progress = Some False,
          slots = [''name'' \<mapsto> ''Alice'']\<rparr> ''I want to book'')) = Some True \<and>
   booking_in_progress (fst (chat (assembled_chain (\<lambda>x. None) (\<lambda>t. NotJson)) (\<lambda>q. None)
       ''http://localhost:8080/''
       \<lparr>conversation_history = None, booking_in_progress = Some False,
          slots = [''name'' \<mapsto> ''Alice'']\<rparr> ''I want to book'')) \<noteq>
     booking_in_progress \<lparr>conversation_history = None, booking_in_progress = Some False,
          slots = [''name'' \<mapsto> ''Alice'']\<rparr> \<and>
   snd (chat (assembled_chain (\<lambda>x. Some ''{}'') (\<lambda>t. Invalid [''email'', ''date''])) (\<lambda>q. None)
       ''http://localhost:8080/''
       \<lparr>conversation_history = None, booking_in_progress = Some False,
          slots = [''name'' \<mapsto> ''Alice'']\<rparr> ''I want to book'') \<noteq>
     Inr ''Missing or invalid: email, date. Please provide them.''"
  by code_simp

lemma is_host_url_shape:
  assumes "is_host_url u"
  shows "\<exists>scheme host. (scheme = ''http'' \<or> scheme = ''https'') \<and> u = scheme @ ''://'' @ host @ ''/'' \<and>
           list_all host_char host"
proof -
  define rest where "rest = (if starts_with ''http://'' u then drop 7 u
               else if starts_with ''https://'' u then drop 8 u else [])"
  have "2 \<le> length rest \<and> last rest = CHR ''/'' \<and> list_all host_char (butlast rest)"
    using assms unfolding is_host_url_def Let_def rest_def by blast
  then have r: "2 \<le> length rest" "last rest = CHR ''/''" "list_all host_char (butlast rest)"
    by blast+
  then have ne: "rest \<noteq> []" by auto
  have e: "rest = butlast rest @ ''/''"
    using append_butlast_last_id [OF ne] r(2) by simp
  consider "starts_with ''http://'' u" | "\<not> starts_with ''http://'' u" "starts_with ''https://'' u"
    using ne unfolding rest_def by (auto split: if_splits)
  then show ?thesis
  proof cases
    case 1
    then obtain q where q: "u = ''http://'' @ q" unfolding starts_with_iff by blast
    then have "rest = q" using 1 unfolding rest_def by simp
    then have "u = ''http'' @ ''://'' @ butlast q @ ''/''" "list_all host_char (butlast q)"
      using e r(3) q by simp_all
    then show ?thesis by blast
  next
    case 2
    then obtain q where q: "u = ''https://'' @ q" unfolding starts_with_iff by blast
    then have "rest = q" using 2 unfolding rest_def by simp
    then have "u = ''https'' @ ''://'' @ butlast q @ ''/''" "list_all host_char (butlast q)"
      using e r(3) q by simp_all
    then show ?thesis by blast
  qed
qed

lemma host_char_no_slash: "list_all host_char host \<Longrightarrow> CHR ''/'' \<notin> set host"
proof -
  have "\<not> host_char CHR ''/''" by code_simp
  then show "list_all host_char host \<Longrightarrow> CHR ''/'' \<notin> set host"
    by (auto simp: list_all_iff)
qed

lemma urljoin_host_url:
  assumes "is_host_url u"
  shows "urljoin u ref = u @ ref"
proof -
  obtain scheme host where h: "scheme = ''http'' \<or> scheme = ''https''"
    "u = scheme @ ''://'' @ host @ ''/''" "list_all host_char host"
    using is_host_url_shape [OF assms] by blast
  have s: "takeWhile (\<lambda>c. c \<noteq> CHR '':'') u = scheme" "lower scheme = scheme"
    using h(1) unfolding h(2) by (auto simp: lower_def lower_char_def code_def)
  have d: "drop (length scheme + 3) u = host @ ''/''"
    unfolding h(2) by simp
  have n: "\<And>x. x \<in> set host \<Longrightarrow> x \<noteq> CHR ''/''"
    using host_char_no_slash [OF h(3)] by blast
  have t: "takeWhile (\<lambda>c. c \<noteq> CHR ''/'') (host @ ''/'') = host"
    using takeWhile_append2 [of host "\<lambda>c. c \<noteq> CHR ''/''" "''/''"] n by simp
  have p: "dropWhile (\<lambda>c. c \<noteq> CHR ''/'') (host @ ''/'') = ''/''"
    using dropWhile_append2 [of host "\<lambda>c. c \<noteq> CHR ''/''" "''/''"] n by simp
  show ?thesis
    unfolding urljoin_def Let_def s d t p by (simp add: h(2))
qed

text \<open>Off that form the reference is resolved, not appended.\<close>

lemma urljoin_resolves:
  "urljoin ''http://localhost:8080'' ''book'' = ''http://localhost:8080/book'' \<and>
   urljoin ''HTTP://localhost/a/b'' ''book'' = ''http://localhost/a/book''"
  by code_simp

lemma chat_completion:
  assumes "is_booking_flow s msg" and "booking_chain (combined_input s msg) = Parsed bi"
    and "missing_fields bi = []"
  shows "chat booking_chain rag_chain host_url s msg =
     finish (get_memory s @ [\<lparr>role = ''user'', content = msg\<rparr>])
       (link_reply (urljoin host_url ''book'' @ ''?name='' @ quote_plus (strip (name bi)) @
             ''&email='' @ quote_plus (strip (email bi)) @
             ''&service='' @ quote_plus (strip (service bi)) @
             ''&date='' @ quote_plus (strip (date bi)) @
             ''&time='' @ quote_plus (strip (time bi))))
       ((store_fields required_fields bi
           ((append_in_place \<lparr>role = ''user'', content = msg\<rparr> s)\<lparr>booking_in_progress := Some True\<rparr>))
         \<lparr>booking_in_progress := Some False\<rparr>)"
proof -
  let ?s1 = "(append_in_place \<lparr>role = ''user'', content = msg\<rparr> s)\<lparr>booking_in_progress := Some True\<rparr>"
  let ?s2 = "store_fields required_fields bi ?s1"
  let ?h = "get_memory s @ [\<lparr>role = ''user'', content = msg\<rparr>]"
  have np: "\<And>f. f \<in> set required_fields \<Longrightarrow> \<not> placeholder (getattr bi f)"
    using assms(3) by (rule no_missing_no_placeholder)
  have sl: "\<And>f. f \<in> set required_fields \<Longrightarrow> slots ?s2 f = Some (strip (getattr bi f))"
    using np by (simp add: store_fields_slots)
  have s5: "slots ?s2 ''name'' = Some (strip (name bi))" "slots ?s2 ''email'' = Some (strip (email bi))"
    "slots ?s2 ''service'' = Some (strip (service bi))" "slots ?s2 ''date'' = Some (strip (date bi))"
    "slots ?s2 ''time'' = Some (strip (time bi))"
    using sl [of "''name''"] sl [of "''email''"] sl [of "''service''"] sl [of "''date''"] sl [of "''time''"]
    by (simp_all add: required_fields_def)
  have c: "chat booking_chain rag_chain host_url s msg = complete_booking host_url ?h ?s2"
    using assms by (simp add: chat_booking merge_def Let_def)
  show ?thesis
    unfolding c by (rule complete_booking_all [OF s5])
qed

text \<open>
  C7. When no field is missing the flag \<open>booking_in_progress\<close> becomes \<open>False\<close>, the
  five slots hold the stripped extracted values and stay, and the reply is the anchor,
  as its address and as its text, to \<open>book\<close> resolved against the host address of the
  request, \<^verbatim>\<open>http://host/\<close> or \<^verbatim>\<open>https://host/\<close>, followed by the five slots as
  percent-encoded query parameters in the order name, email, service, date, time.
\<close>

theorem completion_clears_flag_keeps_slots:
  assumes "is_booking_flow s msg" and "booking_chain (combined_input s msg) = Parsed bi"
    and "missing_fields bi = []" and "is_host_url host_url"
    and "s' = fst (chat booking_chain rag_chain host_url s msg)"
    and "url = host_url @ ''book?name='' @ quote_plus (session_get s' ''name'') @
             ''&email='' @ quote_plus (session_get s' ''email'') @
             ''&service='' @ quote_plus (session_get s' ''service'') @
             ''&date='' @ quote_plus (session_get s' ''date'') @
             ''&time='' @ quote_plus (session_get s' ''time'')"
  shows "booking_in_progress s' = Some False \<and>
    slots s' ''name'' = Some (strip (name bi)) \<and>
    slots s' ''email'' = Some (strip (email bi)) \<and>
    slots s' ''service'' = Some (strip (service bi)) \<and>
    slots s' ''date'' = Some (strip (date bi)) \<and>
    slots s' ''time'' = Some (strip (time bi)) \<and>
    snd (chat booking_chain rag_chain host_url s msg) =
      Inr (''You can complete your booking here: <a href='' @ [CHR 0x27] @ url @ [CHR 0x27] @
           '' target='' @ [CHR 0x27] @ ''_blank'' @ [CHR 0x27] @ ''>'' @ url @ ''</a>'')"
proof -
  have np: "\<And>f. f \<in> set required_fields \<Longrightarrow> \<not> placeholder (getattr bi f)"
    using assms(3) by (rule no_missing_no_placeholder)
  have r: "''name'' \<in> set required_fields" "''email'' \<in> set required_fields"
    "''service'' \<in> set required_fields" "''date'' \<in> set required_fields"
    "''time'' \<in> set required_fields"
    by (simp_all add: required_fields_def)
  have sl: "booking_in_progress s' = Some False"
    "slots s' ''name'' = Some (strip (name bi))"
    "slots s' ''email'' = Some (strip (email bi))"
    "slots s' ''service'' = Some (strip (service bi))"
    "slots s' ''date'' = Some (strip (date bi))"
    "slots s' ''time'' = Some (strip (time bi))"
    unfolding assms(5) chat_completion [of s msg booking_chain bi rag_chain host_url, OF assms(1-3)]
    using np [OF r(1)] np [OF r(2)] np [OF r(3)] np [OF r(4)] np [OF r(5)] r
    by (simp_all add: store_fields_slots)
  have u: "url = urljoin host_url ''book'' @ ''?name='' @ quote_plus (strip (name bi)) @
             ''&email='' @ quote_plus (strip (email bi)) @
             ''&service='' @ quote_plus (strip (service bi)) @
             ''&date='' @ quote_plus (strip (date bi)) @
             ''&time='' @ quote_plus (strip (time bi))"
    unfolding assms(6) urljoin_host_url [OF assms(4)] by (simp add: session_get_def sl)
  have "snd (chat booking_chain rag_chain host_url s msg) = Inr (link_reply url)"
    unfolding chat_completion [of s msg booking_chain bi rag_chain host_url, OF assms(1-3)] u
    by simp
  then show ?thesis using sl by (simp add: link_reply_def)
qed

theorem completion_clears_flag_keeps_slots_witness:
  "missing_fields \<lparr>name = ''Alice'', email = ''alice@mail.com'', service = ''Talk Therapy'',
                    date = ''2025-03-10'', time = ''14:30''\<rparr> = [] \<and>
   is_host_url ''http://localhost:8080/'' \<and>
   booking_in_progress (fst (chat (\<lambda>x. Parsed \<lparr>name = ''Alice'', email = ''alice@mail.com'',
         service = ''Talk Therapy'', date = ''2025-03-10'', time = ''14:30''\<rparr>) (\<lambda>q. None)
       ''http://localhost:8080/''
       \<lparr>conversation_history = None, booking_in_progress = None, slots = Map.empty\<rparr>
       ''book an appointment'')) = Some False \<and>
   slots (fst (chat (\<lambda>x. Parsed \<lparr>name = ''Alice'', email = ''alice@mail.com'',
         service = ''Talk Therapy'', date = ''2025-03-10'', time = ''14:30''\<rparr>) (\<lambda>q. None)
       ''http://localhost:8080/''
       \<lparr>conversation_history = None, booking_in_progress = None, slots = Map.empty\<rparr>
       ''book an appointment'')) ''email'' = Some ''alice@mail.com'' \<and>
   snd (chat (\<lambda>x. Parsed \<lparr>name = ''Alice'', email = ''alice@mail.com'',
         service = ''Talk Therapy'', date = ''2025-03-10'', time = ''14:30''\<rparr>) (\<lambda>q. None)
       ''http://localhost:8080/''
       \<lparr>conversation_history = None, booking_in_progress = None, slots = Map.empty\<rparr>
       ''book an appointment'') =
     Inr ''You can complete your booking here: <a href='http://localhost:8080/book?name=Alice&email=alice%40mail.com&service=Talk+Therapy&date=2025-03-10&time=14%3A30' target='_blank'>http://localhost:8080/book?name=Alice&email=alice%40mail.com&service=Talk+Therapy&date=2025-03-10&time=14%3A30</a>''"
proof -
  let ?bi = "\<lparr>name = ''Alice'', email = ''alice@mail.com'', service = ''Talk Therapy'',
                    date = ''2025-03-10'', time = ''14:30''\<rparr>"
  let ?s = "\<lparr>conversation_history = None, booking_in_progress = None, slots = Map.empty\<rparr>"
  let ?s' = "fst (chat (\<lambda>x. Parsed ?bi) (\<lambda>q. None) ''http://localhost:8080/'' ?s ''book an appointment'')"
  have b: "is_booking_flow ?s ''book an appointment''" by code_simp
  have e: "(\<lambda>x. Parsed ?bi) (combined_input ?s ''book an appointment'') = Parsed ?bi" by simp
  have m: "missing_fields ?bi = []" by code_simp
  have h: "is_host_url ''http://localhost:8080/''" by code_simp
  have q: "strip ''Alice'' = ''Alice''" "strip ''alice@mail.com'' = ''alice@mail.com''"
    "strip ''Talk Therapy'' = ''Talk Therapy''" "strip ''2025-03-10'' = ''2025-03-10''"
    "strip ''14:30'' = ''14:30''"
    "quote_plus ''Alice'' = ''Alice''"
    "quote_plus ''alice@mail.com'' = ''alice%40mail.com''"
    "quote_plus ''Talk Therapy'' = ''Talk+Therapy''"
    "quote_plus ''2025-03-10'' = ''2025-03-10''"
    "quote_plus ''14:30'' = ''14%3A30''"
    by code_simp+
  note t = completion_clears_flag_keeps_slots [OF b e m h refl refl, of "\<lambda>q. None"]
  have sg: "session_get ?s' ''name'' = strip ''Alice''"
    "session_get ?s' ''email'' = strip ''alice@mail.com''"
    "session_get ?s' ''service'' = strip ''Talk Therapy''"
    "session_get ?s' ''date'' = strip ''2025-03-10''"
    "session_get ?s' ''time'' = strip ''14:30''"
    using t by (simp_all add: session_get_def)
  show ?thesis
    using t m h by (simp add: sg q)
qed

subsection \<open>The general question\<close>

lemma join_snoc: "join sep (xs @ [x]) = (if xs = [] then [] else join sep xs @ sep) @ x"
  by (induction sep xs rule: join.induct) auto

lemma last6_snoc: "last6 (h @ [u]) = drop (length h - 5) h @ [u]"
  by (simp add: last6_def)

text \<open>
  C10. On the Q&A path the query handed to the retrieval chain holds the message twice:
  the message was appended to the history before the window of six turns was taken, so
  it is the last line of the window, and it is appended once more after the window.
\<close>

theorem qa_query_has_message_twice:
  "\<not> is_booking_flow s msg \<Longrightarrow>
   chat booking_chain rag_chain host_url s msg =
     qa_turn rag_chain (get_memory s @ [\<lparr>role = ''user'', content = msg\<rparr>])
       (append_in_place \<lparr>role = ''user'', content = msg\<rparr> s) msg \<and>
   qa_turn rag_chain (get_memory s @ [\<lparr>role = ''user'', content = msg\<rparr>])
       (append_in_place \<lparr>role = ''user'', content = msg\<rparr> s) msg =
     (case rag_chain (full_input (get_memory s @ [\<lparr>role = ''user'', content = msg\<rparr>]) msg) of
        None \<Rightarrow> (append_in_place \<lparr>role = ''user'', content = msg\<rparr> s, Inl ChainError)
      | Some answer \<Rightarrow>
          finish (get_memory s @ [\<lparr>role = ''user'', content = msg\<rparr>]) answer
            (append_in_place \<lparr>role = ''user'', content = msg\<rparr> s)) \<and>
   last6 (get_memory s @ [\<lparr>role = ''user'', content = msg\<rparr>]) =
     drop (length (get_memory s) - 5) (get_memory s) @ [\<lparr>role = ''user'', content = msg\<rparr>] \<and>
   full_input (get_memory s @ [\<lparr>role = ''user'', content = msg\<rparr>]) msg =
     (if drop (length (get_memory s) - 5) (get_memory s) = [] then []
      else join [CHR 0x0A] (map render (drop (length (get_memory s) - 5) (get_memory s))) @ [CHR 0x0A]) @
     ''user: '' @ msg @ [CHR 0x0A] @ ''user: '' @ msg"
  by (simp add: chat_def Let_def qa_turn_def full_input_def last6_snoc join_snoc render_def)

theorem qa_query_has_message_twice_witness:
  "\<not> is_booking_flow \<lparr>conversation_history = None, booking_in_progress = None, slots = Map.empty\<rparr>
      ''hello'' \<and>
   full_input (get_memory \<lparr>conversation_history = None, booking_in_progress = None,
       slots = Map.empty\<rparr> @ [\<lparr>role = ''user'', content = ''hello''\<rparr>]) ''hello'' =
     ''user: hello'' @ [CHR 0x0A] @ ''user: hello''"
proof -
  let ?s = "\<lparr>conversation_history = None, booking_in_progress = None, slots = Map.empty\<rparr>"
  have b: "\<not> is_booking_flow ?s ''hello''" by code_simp
  show ?thesis
    using b qa_query_has_message_twice [OF b, of "\<lambda>x. Failure" "\<lambda>q. None" "''http://localhost:8080/''"]
    by (simp add: get_memory_def)
qed

subsection \<open>Matching\<close>

lemma plus_cls_set:
  "r \<in> set (plus_cls p s) \<longleftrightarrow> (\<exists>x. x \<noteq> [] \<and> list_all p x \<and> s = x @ r)"
proof (induction s)
  case Nil
  then show ?case by simp
next
  case (Cons c cs)
  show ?case
  proof
    assume a: "r \<in> set (plus_cls p (c # cs))"
    then have pc: "p c" by (auto split: if_splits)
    from a pc consider "r = cs" | "r \<in> set (plus_cls p cs)" by auto
    then show "\<exists>x. x \<noteq> [] \<and> list_all p x \<and> c # cs = x @ r"
    proof cases
      case 1
      then have "[c] \<noteq> [] \<and> list_all p [c] \<and> c # cs = [c] @ r" using pc by simp
      then show ?thesis by blast
    next
      case 2
      then obtain x where "x \<noteq> []" "list_all p x" "cs = x @ r" using Cons.IH by auto
      then have "c # x \<noteq> [] \<and> list_all p (c # x) \<and> c # cs = (c # x) @ r" using pc by simp
      then show ?thesis by blast
    qed
  next
    assume "\<exists>x. x \<noteq> [] \<and> list_all p x \<and> c # cs = x @ r"
    then obtain x where x: "x \<noteq> []" "list_all p x" "c # cs = x @ r" by auto
    then obtain x' where x': "x = c # x'" by (cases x) auto
    then have pc: "p c" and px: "list_all p x'" and cs: "cs = x' @ r" using x by auto
    show "r \<in> set (plus_cls p (c # cs))"
    proof (cases "x' = []")
      case True
      then show ?thesis using pc cs by simp
    next
      case False
      then have "r \<in> set (plus_cls p cs)" using Cons.IH px cs by blast
      then show ?thesis using pc by simp
    qed
  qed
qed

lemma rx_seq_set:
  "(g, r) \<in> set (rx_match (Seq a b) s) \<longleftrightarrow>
     (\<exists>g1 m g2. (g1, m) \<in> set (rx_match a s) \<and> (g2, r) \<in> set (rx_match b m) \<and> g = g1 @ g2)"
  by (auto simp: image_iff) force+

lemma rx_atom_set:
  "(g, r) \<in> set (rx_match (Atom p) s) \<longleftrightarrow> g = [] \<and> (\<exists>c. s = c # r \<and> p c)"
  by (auto split: list.splits if_splits)

lemma rx_plus_set:
  "(g, r) \<in> set (rx_match (Plus p) s) \<longleftrightarrow>
     g = [] \<and> (\<exists>x. x \<noteq> [] \<and> list_all p x \<and> s = x @ r)"
  by (auto simp: plus_cls_set)

lemma rx_dollar_set:
  "(g, r) \<in> set (rx_match Dollar s) \<longleftrightarrow> g = [] \<and> r = s \<and> (s = [] \<or> s = [10])"
  by auto

lemma email_match_set:
  "(g, r) \<in> set (rx_match (email_pattern U) s) \<longleftrightarrow>
     g = [] \<and> (r = [] \<or> r = [10]) \<and>
     (\<exists>l d t. s = l @ cps ''@'' @ d @ cps ''.'' @ t @ r \<and> l \<noteq> [] \<and> d \<noteq> [] \<and> t \<noteq> [] \<and>
        list_all (not_at_space U) l \<and> list_all (not_at_space U) d \<and> list_all ascii_alnum t)"
  unfolding email_pattern_def lit_def rx_seq_set rx_atom_set rx_plus_set rx_dollar_set
  apply (rule iffI)
   apply (elim exE conjE)
   apply (simp add: cps_def, blast)
  apply (elim exE conjE)
  apply (simp add: cps_def)
  by blast

lemma rx_alt_set:
  "(g, r) \<in> set (rx_match (Alt a b) s) \<longleftrightarrow>
     (g, r) \<in> set (rx_match a s) \<or> (g, r) \<in> set (rx_match b s)"
  by simp

lemma rx_grp_set:
  "(g, r) \<in> set (rx_match (Grp n a) s) \<longleftrightarrow>
     (\<exists>g'. (g', r) \<in> set (rx_match a s) \<and> g = (n, take (length s - length r) s) # g')"
  by (auto simp: image_iff) force

lemma rx_lit_set:
  "(g, r) \<in> set (rx_match (lit c) s) \<longleftrightarrow> g = [] \<and> s = code c # r"
  by (auto simp: lit_def rx_atom_set)

lemma rx_atom2_set:
  "(g, r) \<in> set (rx_match (Seq (Atom p) (Atom q)) s) \<longleftrightarrow>
     g = [] \<and> (\<exists>a b. s = a # b # r \<and> p a \<and> q b)"
  by (auto simp: rx_seq_set rx_atom_set)

lemma take_app: "take (length (x @ r) - length r) (x @ r) = x"
  by simp

lemma re_m_body:
  "(g', r) \<in> set (rx_match
       (Alt (Seq (lit CHR ''1'') (rng CHR ''0'' CHR ''2''))
       (Alt (Seq (lit CHR ''0'') (rng CHR ''1'' CHR ''9''))
            (rng CHR ''1'' CHR ''9''))) s) \<longleftrightarrow>
   g' = [] \<and> (\<exists>ms. s = ms @ r \<and> month_text ms)"
proof -
  have e: "(\<exists>ms. s = ms @ r \<and> month_text ms) \<longleftrightarrow>
     (\<exists>a b. s = a # b # r \<and> a = code CHR ''1'' \<and> in_range CHR ''0'' CHR ''2'' b) \<or>
     (\<exists>a b. s = a # b # r \<and> a = code CHR ''0'' \<and> in_range CHR ''1'' CHR ''9'' b) \<or>
     (\<exists>a. s = a # r \<and> in_range CHR ''1'' CHR ''9'' a)" (is "?L \<longleftrightarrow> ?R")
  proof
    assume ?L
    then obtain ms where ms: "s = ms @ r" "month_text ms" by auto
    from ms(2) ms(1) show ?R by (cases ms rule: month_text.cases) simp_all
  next
    assume ?R
    then consider a b where "s = [a, b] @ r" "month_text [a, b]"
      | a where "s = [a] @ r" "month_text [a]"
      by fastforce
    then show ?L by cases blast+
  qed
  show ?thesis
    unfolding e lit_def rng_def rx_alt_set rx_atom2_set rx_atom_set by blast
qed

lemma re_m_set:
  "(g, r) \<in> set (rx_match re_m s) \<longleftrightarrow> (\<exists>ms. s = ms @ r \<and> g = [(''m'', ms)] \<and> month_text ms)"
  unfolding re_m_def rx_grp_set re_m_body by (auto simp: take_app)

lemma re_Y_body:
  "(g', r) \<in> set (rx_match (Seq (digit U) (Seq (digit U) (Seq (digit U) (digit U)))) s) \<longleftrightarrow>
   g' = [] \<and> (\<exists>ys. s = ys @ r \<and> year_text U ys)"
proof -
  have e: "(\<exists>ys. s = ys @ r \<and> year_text U ys) \<longleftrightarrow>
     (\<exists>a b c d. s = a # b # c # d # r \<and> is_decimal U a \<and> is_decimal U b \<and> is_decimal U c \<and> is_decimal U d)"
    (is "?L \<longleftrightarrow> ?R")
  proof
    assume ?L
    then obtain ys where ys: "s = ys @ r" "year_text U ys" by auto
    from ys(2) ys(1) show ?R by (cases "(U, ys)" rule: year_text.cases) simp_all
  next
    assume ?R
    then obtain a b c d where "s = [a, b, c, d] @ r" "year_text U [a, b, c, d]" by fastforce
    then show ?L by blast
  qed
  have s3: "\<And>g x y. (g, y) \<in> set (rx_match (Seq (digit U) (Seq (digit U) (digit U))) x) \<longleftrightarrow>
      g = [] \<and> (\<exists>b c d. x = b # c # d # y \<and> is_decimal U b \<and> is_decimal U c \<and> is_decimal U d)"
    unfolding digit_def rx_seq_set [of _ _ "Atom (is_decimal U)" "Seq (Atom (is_decimal U)) (Atom (is_decimal U))"]
      rx_atom2_set rx_atom_set by auto
  show ?thesis
    unfolding e rx_seq_set [of _ _ "digit U" "Seq (digit U) (Seq (digit U) (digit U))"] s3
    unfolding digit_def rx_atom_set by auto
qed

lemma re_Y_set:
  "(g, r) \<in> set (rx_match (re_Y U) s) \<longleftrightarrow> (\<exists>ys. s = ys @ r \<and> g = [(''Y'', ys)] \<and> year_text U ys)"
  unfolding re_Y_def rx_grp_set re_Y_body by (auto simp: take_app)

lemma re_d_body:
  "(g', r) \<in> set (rx_match
       (Alt (Seq (lit CHR ''3'') (rng CHR ''0'' CHR ''1''))
       (Alt (Seq (rng CHR ''1'' CHR ''2'') (digit U))
       (Alt (Seq (lit CHR ''0'') (rng CHR ''1'' CHR ''9''))
       (Alt (rng CHR ''1'' CHR ''9'')
            (Seq (lit CHR '' '') (rng CHR ''1'' CHR ''9'')))))) s) \<longleftrightarrow>
   g' = [] \<and> (\<exists>ds. s = ds @ r \<and> day_text U ds)"
proof -
  have e: "(\<exists>ds. s = ds @ r \<and> day_text U ds) \<longleftrightarrow>
     (\<exists>a b. s = a # b # r \<and> a = code CHR ''3'' \<and> in_range CHR ''0'' CHR ''1'' b) \<or>
     (\<exists>a b. s = a # b # r \<and> in_range CHR ''1'' CHR ''2'' a \<and> is_decimal U b) \<or>
     (\<exists>a b. s = a # b # r \<and> a = code CHR ''0'' \<and> in_range CHR ''1'' CHR ''9'' b) \<or>
     (\<exists>a. s = a # r \<and> in_range CHR ''1'' CHR ''9'' a) \<or>
     (\<exists>a b. s = a # b # r \<and> a = code CHR '' '' \<and> in_range CHR ''1'' CHR ''9'' b)" (is "?L \<longleftrightarrow> ?R")
  proof
    assume ?L
    then obtain ds where ds: "s = ds @ r" "day_text U ds" by auto
    from ds(2) ds(1) show ?R by (cases "(U, ds)" rule: day_text.cases) auto
  next
    assume ?R
    then consider a b where "s = [a, b] @ r" "day_text U [a, b]"
      | a where "s = [a] @ r" "day_text U [a]"
      by fastforce
    then show ?L by cases blast+
  qed
  show ?thesis
    unfolding e lit_def rng_def digit_def rx_alt_set rx_atom2_set rx_atom_set by blast
qed

lemma re_d_set:
  "(g, r) \<in> set (rx_match (re_d U) s) \<longleftrightarrow> (\<exists>ds. s = ds @ r \<and> g = [(''d'', ds)] \<and> day_text U ds)"
  unfolding re_d_def rx_grp_set re_d_body by (auto simp: take_app)

lemma re_H_body:
  "(g', r) \<in> set (rx_match
       (Alt (Seq (lit CHR ''2'') (rng CHR ''0'' CHR ''3''))
       (Alt (Seq (rng CHR ''0'' CHR ''1'') (digit U))
            (digit U))) s) \<longleftrightarrow>
   g' = [] \<and> (\<exists>hs. s = hs @ r \<and> hour_text U hs)"
proof -
  have e: "(\<exists>hs. s = hs @ r \<and> hour_text U hs) \<longleftrightarrow>
     (\<exists>a b. s = a # b # r \<and> a = code CHR ''2'' \<and> in_range CHR ''0'' CHR ''3'' b) \<or>
     (\<exists>a b. s = a # b # r \<and> in_range CHR ''0'' CHR ''1'' a \<and> is_decimal U b) \<or>
     (\<exists>a. s = a # r \<and> is_decimal U a)" (is "?L \<longleftrightarrow> ?R")
  proof
    assume ?L
    then obtain hs where hs: "s = hs @ r" "hour_text U hs" by auto
    from hs(2) hs(1) show ?R by (cases "(U, hs)" rule: hour_text.cases) auto
  next
    assume ?R
    then consider a b where "s = [a, b] @ r" "hour_text U [a, b]"
      | a where "s = [a] @ r" "hour_text U [a]"
      by fastforce
    then show ?L by cases blast+
  qed
  show ?thesis
    unfolding e lit_def rng_def digit_def rx_alt_set rx_atom2_set rx_atom_set by blast
qed

lemma re_H_set:
  "(g, r) \<in> set (rx_match (re_H U) s) \<longleftrightarrow> (\<exists>hs. s = hs @ r \<and> g = [(''H'', hs)] \<and> hour_text U hs)"
  unfolding re_H_def rx_grp_set re_H_body by (auto simp: take_app)

lemma re_M_body:
  "(g', r) \<in> set (rx_match (Alt (Seq (rng CHR ''0'' CHR ''5'') (digit U)) (digit U)) s) \<longleftrightarrow>
   g' = [] \<and> (\<exists>ms. s = ms @ r \<and> minute_text U ms)"
proof -
  have e: "(\<exists>ms. s = ms @ r \<and> minute_text U ms) \<longleftrightarrow>
     (\<exists>a b. s = a # b # r \<and> in_range CHR ''0'' CHR ''5'' a \<and> is_decimal U b) \<or>
     (\<exists>a. s = a # r \<and> is_decimal U a)" (is "?L \<longleftrightarrow> ?R")
  proof
    assume ?L
    then obtain ms where ms: "s = ms @ r" "minute_text U ms" by auto
    from ms(2) ms(1) show ?R by (cases "(U, ms)" rule: minute_text.cases) auto
  next
    assume ?R
    then consider a b where "s = [a, b] @ r" "minute_text U [a, b]"
      | a where "s = [a] @ r" "minute_text U [a]"
      by fastforce
    then show ?L by cases blast+
  qed
  show ?thesis
    unfolding e rng_def digit_def rx_alt_set rx_atom2_set rx_atom_set by blast
qed

lemma re_M_set:
  "(g, r) \<in> set (rx_match (re_M U) s) \<longleftrightarrow> (\<exists>ms. s = ms @ r \<and> g = [(''M'', ms)] \<and> minute_text U ms)"
  unfolding re_M_def rx_grp_set re_M_body by (auto simp: take_app)

lemma rx_seq_lit_set:
  "(g, r) \<in> set (rx_match (Seq (lit c) b) s) \<longleftrightarrow> (\<exists>t. s = code c # t \<and> (g, r) \<in> set (rx_match b t))"
  unfolding rx_seq_set rx_lit_set by auto

lemma rx_seq_grp_set:
  assumes "\<And>g r s. (g, r) \<in> set (rx_match a s) \<longleftrightarrow> (\<exists>x. s = x @ r \<and> g = [(n, x)] \<and> P x)"
  shows "(g, r) \<in> set (rx_match (Seq a b) s) \<longleftrightarrow>
     (\<exists>x t g2. s = x @ t \<and> P x \<and> g = (n, x) # g2 \<and> (g2, r) \<in> set (rx_match b t))"
proof
  assume "(g, r) \<in> set (rx_match (Seq a b) s)"
  then show "\<exists>x t g2. s = x @ t \<and> P x \<and> g = (n, x) # g2 \<and> (g2, r) \<in> set (rx_match b t)"
    unfolding rx_seq_set assms by auto
next
  assume "\<exists>x t g2. s = x @ t \<and> P x \<and> g = (n, x) # g2 \<and> (g2, r) \<in> set (rx_match b t)"
  then obtain x t g2 where h: "s = x @ t" "P x" "g = (n, x) # g2" "(g2, r) \<in> set (rx_match b t)"
    by auto
  have "([(n, x)], t) \<in> set (rx_match a s)" using h(1,2) assms by blast
  moreover have "g = [(n, x)] @ g2" using h(3) by simp
  ultimately show "(g, r) \<in> set (rx_match (Seq a b) s)"
    unfolding rx_seq_set using h(4) by blast
qed

lemma date_pattern_set:
  "(g, r) \<in> set (rx_match (date_pattern U) s) \<longleftrightarrow>
     (\<exists>ys ms ds. s = ys @ cps ''-'' @ ms @ cps ''-'' @ ds @ r \<and>
        g = [(''Y'', ys), (''m'', ms), (''d'', ds)] \<and>
        year_text U ys \<and> month_text ms \<and> day_text U ds)"
  unfolding date_pattern_def rx_seq_grp_set [of "re_Y U", OF re_Y_set] rx_seq_lit_set
    rx_seq_grp_set [of re_m, OF re_m_set] re_d_set
  by (auto simp: cps_def)

lemma time_pattern_set:
  "(g, r) \<in> set (rx_match (time_pattern U) s) \<longleftrightarrow>
     (\<exists>hs ms. s = hs @ cps '':'' @ ms @ r \<and> g = [(''H'', hs), (''M'', ms)] \<and>
        hour_text U hs \<and> minute_text U ms)"
  unfolding time_pattern_def rx_seq_grp_set [of "re_H U", OF re_H_set] rx_seq_lit_set re_M_set
  by (auto simp: cps_def)

lemma seq_lit_list: "rx_match (Seq (lit c) b) (code c # t) = rx_match b t"
  by (simp add: lit_def)

lemma seq_Y_list:
  "year_text U ys \<Longrightarrow>
   rx_match (Seq (re_Y U) b) (ys @ t) = map (\<lambda>(g2, r2). ((''Y'', ys) # g2, r2)) (rx_match b t)"
  by (cases "(U, ys)" rule: year_text.cases) (simp_all add: re_Y_def digit_def)

lemma re_m_list:
  "month_text ms \<Longrightarrow>
   rx_match (Seq re_m (Seq (lit CHR ''-'') R)) (ms @ code CHR ''-'' # r) =
     map (\<lambda>(g2, r2). ((''m'', ms) # g2, r2)) (rx_match R r)"
  by (cases ms rule: month_text.cases)
    (auto simp: re_m_def lit_def rng_def in_range_def code_def)

lemma re_d_list:
  "day_text U ds \<Longrightarrow> \<exists>tl. rx_match (re_d U) ds = ([(''d'', ds)], []) # tl"
  by (cases "(U, ds)" rule: day_text.cases)
    (auto simp: re_d_def lit_def rng_def digit_def in_range_def code_def)

lemma re_H_list:
  "hour_text U hs \<Longrightarrow> \<not> is_decimal U (code CHR '':'') \<Longrightarrow>
   rx_match (Seq (re_H U) (Seq (lit CHR '':'') R)) (hs @ code CHR '':'' # r) =
     map (\<lambda>(g2, r2). ((''H'', hs) # g2, r2)) (rx_match R r)"
  by (cases "(U, hs)" rule: hour_text.cases)
    (auto simp: re_H_def lit_def rng_def digit_def in_range_def is_decimal_def code_def)

lemma re_M_list:
  "minute_text U ms \<Longrightarrow> \<exists>tl. rx_match (re_M U) ms = ([(''M'', ms)], []) # tl"
  by (cases "(U, ms)" rule: minute_text.cases)
    (auto simp: re_M_def lit_def rng_def digit_def in_range_def is_decimal_def code_def)

lemma date_pattern_head:
  assumes "year_text U ys" "month_text ms" "day_text U ds"
  shows "\<exists>tl. rx_match (date_pattern U) (ys @ cps ''-'' @ ms @ cps ''-'' @ ds) =
           ([(''Y'', ys), (''m'', ms), (''d'', ds)], []) # tl"
proof -
  obtain tl where tl: "rx_match (re_d U) ds = ([(''d'', ds)], []) # tl"
    using re_d_list [OF assms(3)] by blast
  have "rx_match (date_pattern U) (ys @ cps ''-'' @ ms @ cps ''-'' @ ds) =
      map (\<lambda>(g2, r2). ((''Y'', ys) # g2, r2))
        (map (\<lambda>(g2, r2). ((''m'', ms) # g2, r2)) (rx_match (re_d U) ds))"
    unfolding date_pattern_def cps_def list.map
    by (simp only: seq_Y_list [OF assms(1)] append_Cons append_Nil seq_lit_list
        re_m_list [OF assms(2)])
  then show ?thesis unfolding tl by simp
qed

lemma time_pattern_head:
  assumes "hour_text U hs" "minute_text U ms" "\<not> is_decimal U (code CHR '':'')"
  shows "\<exists>tl. rx_match (time_pattern U) (hs @ cps '':'' @ ms) = ([(''H'', hs), (''M'', ms)], []) # tl"
proof -
  obtain tl where tl: "rx_match (re_M U) ms = ([(''M'', ms)], []) # tl"
    using re_M_list [OF assms(2)] by blast
  have "rx_match (time_pattern U) (hs @ cps '':'' @ ms) =
      map (\<lambda>(g2, r2). ((''H'', hs) # g2, r2)) (rx_match (re_M U) ms)"
    unfolding time_pattern_def cps_def list.map
    by (simp only: append_Cons append_Nil re_H_list [OF assms(1,3)])
  then show ?thesis unfolding tl by simp
qed

lemma validate_date_head:
  "validate_date_cp U s \<longleftrightarrow>
     (\<exists>g tl. rx_match (date_pattern U) s = (g, []) # tl \<and>
        date_ok (py_int U (group g ''Y'')) (py_int U (group g ''m'')) (py_int U (group g ''d'')))"
  by (auto simp: validate_date_cp_def strptime_date_def Let_def split: list.splits)

lemma validate_date_texts:
  "validate_date_cp U s \<longleftrightarrow>
     (\<exists>ys ms ds. s = ys @ cps ''-'' @ ms @ cps ''-'' @ ds \<and> year_text U ys \<and> month_text ms \<and> day_text U ds \<and>
        date_ok (py_int U ys) (py_int U ms) (py_int U ds))"
proof
  assume "validate_date_cp U s"
  then obtain g tl where g: "rx_match (date_pattern U) s = (g, []) # tl"
    "date_ok (py_int U (group g ''Y'')) (py_int U (group g ''m'')) (py_int U (group g ''d''))"
    unfolding validate_date_head by blast
  then have "(g, []) \<in> set (rx_match (date_pattern U) s)" by simp
  then obtain ys ms ds where d: "s = ys @ cps ''-'' @ ms @ cps ''-'' @ ds @ []"
    "g = [(''Y'', ys), (''m'', ms), (''d'', ds)]" "year_text U ys" "month_text ms" "day_text U ds"
    unfolding date_pattern_set by blast
  have "date_ok (py_int U ys) (py_int U ms) (py_int U ds)" using g(2) unfolding d(2) by simp
  then show "\<exists>ys ms ds. s = ys @ cps ''-'' @ ms @ cps ''-'' @ ds \<and> year_text U ys \<and> month_text ms \<and>
      day_text U ds \<and> date_ok (py_int U ys) (py_int U ms) (py_int U ds)"
    using d by auto
next
  assume "\<exists>ys ms ds. s = ys @ cps ''-'' @ ms @ cps ''-'' @ ds \<and> year_text U ys \<and> month_text ms \<and>
      day_text U ds \<and> date_ok (py_int U ys) (py_int U ms) (py_int U ds)"
  then obtain ys ms ds where d: "s = ys @ cps ''-'' @ ms @ cps ''-'' @ ds" "year_text U ys" "month_text ms"
    "day_text U ds" "date_ok (py_int U ys) (py_int U ms) (py_int U ds)" by blast
  obtain tl where "rx_match (date_pattern U) s = ([(''Y'', ys), (''m'', ms), (''d'', ds)], []) # tl"
    using date_pattern_head [OF d(2,3,4)] d(1) by blast
  then show "validate_date_cp U s"
    unfolding validate_date_head using d(5) by simp
qed

lemma validate_time_texts:
  assumes nc: "\<not> is_decimal U (code CHR '':'')"
  shows "validate_time_cp U s \<longleftrightarrow> (\<exists>hs ms. s = hs @ cps '':'' @ ms \<and> hour_text U hs \<and> minute_text U ms \<and>
      py_int U hs \<le> 23 \<and> py_int U ms \<le> 59)"
proof
  assume "validate_time_cp U s"
  then obtain g tl where g: "rx_match (time_pattern U) s = (g, []) # tl"
    "py_int U (group g ''H'') \<le> 23" "py_int U (group g ''M'') \<le> 59"
    by (auto simp: validate_time_cp_def strptime_time_def Let_def split: list.splits if_splits)
  then have "(g, []) \<in> set (rx_match (time_pattern U) s)" by simp
  then obtain hs ms where d: "s = hs @ cps '':'' @ ms @ []"
    "g = [(''H'', hs), (''M'', ms)]" "hour_text U hs" "minute_text U ms"
    unfolding time_pattern_set by blast
  have "py_int U hs \<le> 23" "py_int U ms \<le> 59" using g(2,3) unfolding d(2) by simp_all
  then show "\<exists>hs ms. s = hs @ cps '':'' @ ms \<and> hour_text U hs \<and> minute_text U ms \<and>
      py_int U hs \<le> 23 \<and> py_int U ms \<le> 59"
    using d by auto
next
  assume "\<exists>hs ms. s = hs @ cps '':'' @ ms \<and> hour_text U hs \<and> minute_text U ms \<and>
      py_int U hs \<le> 23 \<and> py_int U ms \<le> 59"
  then obtain hs ms where d: "s = hs @ cps '':'' @ ms" "hour_text U hs" "minute_text U ms"
    "py_int U hs \<le> 23" "py_int U ms \<le> 59" by blast
  obtain tl where "rx_match (time_pattern U) s = ([(''H'', hs), (''M'', ms)], []) # tl"
    using time_pattern_head [OF d(2,3) nc] d(1) by blast
  then show "validate_time_cp U s"
    using d(4,5) by (simp add: validate_time_cp_def strptime_time_def)
qed

subsection \<open>The numbers of the groups\<close>

lemma code_numerals:
  "code CHR ''0'' = 48" "code CHR ''1'' = 49" "code CHR ''2'' = 50" "code CHR ''3'' = 51"
  "code CHR ''5'' = 53" "code CHR ''9'' = 57" "code CHR '' '' = 32" "code CHR '':'' = 58"
  "code CHR ''-'' = 45" "code CHR ''@'' = 64" "code CHR ''.'' = 46"
  by (simp_all add: code_def)

lemma ascii_decimal: "unicode_ok U \<Longrightarrow> ascii_digit c \<Longrightarrow> is_decimal U c"
  by (simp add: unicode_ok_def is_decimal_def)

lemma ascii_val: "unicode_ok U \<Longrightarrow> ascii_digit c \<Longrightarrow> digit_val U c = c - 48"
  by (simp add: unicode_ok_def digit_val_def)

lemma decimal_val: "unicode_ok U \<Longrightarrow> is_decimal U c \<Longrightarrow> digit_val U c \<le> 9"
  by (auto simp: unicode_ok_def digit_val_def is_decimal_def)

lemma decimal_not_space: "unicode_ok U \<Longrightarrow> is_decimal U c \<Longrightarrow> \<not> whitespace U c"
  by (simp add: unicode_ok_def)

lemma strip_cp_id:
  "s = [] \<or> (\<not> whitespace U (hd s) \<and> \<not> whitespace U (last s)) \<Longrightarrow> strip_cp U s = s"
proof (cases s rule: rev_cases)
  case Nil
  then show ?thesis by (simp add: strip_cp_def)
next
  case (snoc xs x)
  assume "s = [] \<or> (\<not> whitespace U (hd s) \<and> \<not> whitespace U (last s))"
  then have h: "\<not> whitespace U (hd s)" and l: "\<not> whitespace U x" using snoc by simp_all
  have "dropWhile (whitespace U) s = s" using h by (cases s) auto
  then show ?thesis using l snoc by (simp add: strip_cp_def)
qed

lemma py_int_1: "unicode_ok U \<Longrightarrow> is_decimal U a \<Longrightarrow> py_int U [a] = digit_val U a"
  using strip_cp_id [of "[a]" U] by (simp add: py_int_def decimal_not_space)

lemma py_int_2:
  "unicode_ok U \<Longrightarrow> is_decimal U a \<Longrightarrow> is_decimal U b \<Longrightarrow>
   py_int U [a, b] = 10 * digit_val U a + digit_val U b"
  using strip_cp_id [of "[a, b]" U] by (simp add: py_int_def decimal_not_space)

lemma py_int_sp:
  assumes "unicode_ok U" "is_decimal U b"
  shows "py_int U [code CHR '' '', b] = digit_val U b"
proof -
  have s: "whitespace U 32" using assms(1) by (simp add: unicode_ok_def)
  have n: "\<not> whitespace U b" using assms by (rule decimal_not_space)
  show ?thesis using s n by (simp add: py_int_def strip_cp_def code_numerals)
qed

lemma year_text_iff: "year_text U ys \<longleftrightarrow> length ys = 4 \<and> list_all (is_decimal U) ys"
proof
  assume "year_text U ys"
  then show "length ys = 4 \<and> list_all (is_decimal U) ys"
    by (cases "(U, ys)" rule: year_text.cases) simp_all
next
  assume a: "length ys = 4 \<and> list_all (is_decimal U) ys"
  then obtain a b c d where "ys = [a, b, c, d]"
    by (auto simp: length_Suc_conv numeral_eq_Suc)
  then show "year_text U ys" using a by simp
qed

lemma len12: "length xs = 1 \<or> length xs = 2 \<longleftrightarrow> (\<exists>a. xs = [a]) \<or> (\<exists>a b. xs = [a, b])"
  by (auto simp: length_Suc_conv numeral_eq_Suc)

lemma month_text_iff:
  assumes U: "unicode_ok U"
  shows "month_text ms \<longleftrightarrow>
     (length ms = 1 \<or> length ms = 2) \<and> list_all ascii_digit ms \<and>
     1 \<le> py_int U ms \<and> py_int U ms \<le> 12"
proof
  assume m: "month_text ms"
  show "(length ms = 1 \<or> length ms = 2) \<and> list_all ascii_digit ms \<and>
     1 \<le> py_int U ms \<and> py_int U ms \<le> 12"
  proof (cases ms rule: month_text.cases)
    case (1 a b)
    then have d: "ascii_digit a" "ascii_digit b" and v: "1 \<le> 10 * (a - 48) + (b - 48)"
      "10 * (a - 48) + (b - 48) \<le> 12"
      using m by (auto simp: in_range_def ascii_digit_def code_numerals)
    then show ?thesis using 1 by (simp add: py_int_2 [OF U] ascii_decimal [OF U] ascii_val [OF U])
  next
    case (2 a)
    then have d: "ascii_digit a" and v: "1 \<le> a - 48" "a - 48 \<le> 12"
      using m by (auto simp: in_range_def ascii_digit_def code_numerals)
    then show ?thesis using 2 by (simp add: py_int_1 [OF U] ascii_decimal [OF U] ascii_val [OF U])
  qed (use m in simp_all)
next
  assume a: "(length ms = 1 \<or> length ms = 2) \<and> list_all ascii_digit ms \<and>
     1 \<le> py_int U ms \<and> py_int U ms \<le> 12"
  then consider x where "ms = [x]" | x y where "ms = [x, y]" using len12 [of ms] by blast
  then show "month_text ms"
  proof cases
    case 1
    then have "ascii_digit x" "1 \<le> x - 48"
      using a by (auto simp: py_int_1 [OF U] ascii_decimal [OF U] ascii_val [OF U])
    then show ?thesis using 1 by (auto simp: in_range_def ascii_digit_def code_numerals)
  next
    case 2
    then have d: "ascii_digit x" "ascii_digit y" using a by auto
    then have "1 \<le> 10 * (x - 48) + (y - 48)" "10 * (x - 48) + (y - 48) \<le> 12"
      using a 2 by (auto simp: py_int_2 [OF U] ascii_decimal [OF U] ascii_val [OF U])
    then show ?thesis using 2 d
      by (auto simp: in_range_def ascii_digit_def code_numerals)
  qed
qed

lemma day2_num:
  fixes a b :: nat
  assumes "48 \<le> a" "a \<le> 57" "48 \<le> b" "b \<le> 57"
    and "1 \<le> 10 * (a - 48) + (b - 48)" "10 * (a - 48) + (b - 48) \<le> 31"
  shows "(a = 51 \<and> 48 \<le> b \<and> b \<le> 49) \<or> (49 \<le> a \<and> a \<le> 50) \<or> (a = 48 \<and> 49 \<le> b)"
  using assms by arith

lemma day2_digits:
  assumes U: "unicode_ok U" and d: "ascii_digit x" "ascii_digit y"
    and v: "1 \<le> 10 * (x - 48) + (y - 48)" "10 * (x - 48) + (y - 48) \<le> 31"
  shows "day_text U [x, y]"
proof -
  have "(x = 51 \<and> 48 \<le> y \<and> y \<le> 49) \<or> (49 \<le> x \<and> x \<le> 50) \<or> (x = 48 \<and> 49 \<le> y)"
    using d v unfolding ascii_digit_def by (intro day2_num) auto
  then show ?thesis
    using d ascii_decimal [OF U d(2)]
    unfolding day_text.simps in_range_def ascii_digit_def code_numerals
    by auto
qed

lemma day_fwd:
  assumes U: "unicode_ok U" and t: "day_text U ds"
  shows "((length ds = 1 \<or> length ds = 2) \<and> list_all ascii_digit ds \<or>
      (\<exists>a b. ds = [a, b] \<and> (a = code CHR ''1'' \<or> a = code CHR ''2'') \<and> is_decimal U b) \<or>
      (\<exists>c. ds = [code CHR '' '', c] \<and> ascii_digit c)) \<and> 1 \<le> py_int U ds \<and> py_int U ds \<le> 31"
proof (cases "(U, ds)" rule: day_text.cases)
  case (1 V a b)
  then have ds: "ds = [a, b]" and V: "V = U" by simp_all
  from t ds consider
      "a = 51" "48 \<le> b" "b \<le> 49"
    | "49 \<le> a" "a \<le> 50" "is_decimal U b"
    | "a = 48" "49 \<le> b" "b \<le> 57"
    | "a = 32" "49 \<le> b" "b \<le> 57"
    by (auto simp: in_range_def code_numerals)
  then show ?thesis
  proof cases
    case 1
    then have d: "ascii_digit a" "ascii_digit b" by (simp_all add: ascii_digit_def)
    have "py_int U ds = 10 * (a - 48) + (b - 48)"
      using d ds by (simp add: py_int_2 [OF U] ascii_decimal [OF U] ascii_val [OF U])
    then have "1 \<le> py_int U ds \<and> py_int U ds \<le> 31" using 1 by auto
    moreover have "length ds = 2 \<and> list_all ascii_digit ds" using d ds by simp
    ultimately show ?thesis by blast
  next
    case 2
    then have a: "ascii_digit a" "a = 49 \<or> a = 50" by (auto simp: ascii_digit_def)
    have "digit_val U b \<le> 9" using U 2(3) by (rule decimal_val)
    moreover have "py_int U ds = 10 * (a - 48) + digit_val U b"
      using a 2 ds by (simp add: py_int_2 [OF U] ascii_decimal [OF U] ascii_val [OF U])
    ultimately have "1 \<le> py_int U ds \<and> py_int U ds \<le> 31" using a(2) by auto
    moreover have "\<exists>a b. ds = [a, b] \<and> (a = code CHR ''1'' \<or> a = code CHR ''2'') \<and> is_decimal U b"
      using a(2) 2(3) ds by (simp add: code_numerals)
    ultimately show ?thesis by blast
  next
    case 3
    then have d: "ascii_digit a" "ascii_digit b" by (simp_all add: ascii_digit_def)
    have "py_int U ds = 10 * (a - 48) + (b - 48)"
      using d ds by (simp add: py_int_2 [OF U] ascii_decimal [OF U] ascii_val [OF U])
    then have "1 \<le> py_int U ds \<and> py_int U ds \<le> 31" using 3 by auto
    moreover have "length ds = 2 \<and> list_all ascii_digit ds" using d ds by simp
    ultimately show ?thesis by blast
  next
    case 4
    then have b: "ascii_digit b" by (simp add: ascii_digit_def)
    have "py_int U ds = b - 48"
      using py_int_sp [OF U ascii_decimal [OF U b]] 4(1) ds
      by (simp add: code_numerals ascii_val [OF U b])
    then have "1 \<le> py_int U ds \<and> py_int U ds \<le> 31" using 4 by auto
    moreover have "\<exists>c. ds = [code CHR '' '', c] \<and> ascii_digit c"
      using 4(1) b ds by (simp add: code_numerals)
    ultimately show ?thesis by blast
  qed
next
  case (2 V a)
  then have ds: "ds = [a]" by simp
  then have "ascii_digit a" "1 \<le> a - 48" "a - 48 \<le> 31"
    using t by (auto simp: in_range_def ascii_digit_def code_numerals)
  then show ?thesis using ds by (simp add: py_int_1 [OF U] ascii_decimal [OF U] ascii_val [OF U])
qed (use t in simp_all)

lemma day_bwd:
  assumes U: "unicode_ok U"
    and a: "(length ds = 1 \<or> length ds = 2) \<and> list_all ascii_digit ds \<or>
      (\<exists>a b. ds = [a, b] \<and> (a = code CHR ''1'' \<or> a = code CHR ''2'') \<and> is_decimal U b) \<or>
      (\<exists>c. ds = [code CHR '' '', c] \<and> ascii_digit c)"
    and lo: "1 \<le> py_int U ds" and hi: "py_int U ds \<le> 31"
  shows "day_text U ds"
  using a
proof (elim disjE exE conjE)
  assume 1: "length ds = 1" "list_all ascii_digit ds"
  then obtain x where x: "ds = [x]" by (cases ds) auto
  then have d: "ascii_digit x" using 1(2) by simp
  have "1 \<le> x - 48" using lo x d by (simp add: py_int_1 [OF U] ascii_decimal [OF U] ascii_val [OF U])
  then show ?thesis using x d by (auto simp: in_range_def ascii_digit_def code_numerals)
next
  assume 2: "length ds = 2" "list_all ascii_digit ds"
  then obtain x y where x: "ds = [x, y]" by (auto simp: length_Suc_conv numeral_eq_Suc)
  then have d: "ascii_digit x" "ascii_digit y" using 2(2) by simp_all
  have "1 \<le> 10 * (x - 48) + (y - 48)" "10 * (x - 48) + (y - 48) \<le> 31"
    using lo hi x d by (simp_all add: py_int_2 [OF U] ascii_decimal [OF U] ascii_val [OF U])
  then show ?thesis unfolding x using U d by (intro day2_digits)
next
  fix a b
  assume 3: "ds = [a, b]" "a = code CHR ''1''" "is_decimal U b"
  then show ?thesis by (simp add: in_range_def code_numerals)
next
  fix a b
  assume 3: "ds = [a, b]" "a = code CHR ''2''" "is_decimal U b"
  then show ?thesis by (simp add: in_range_def code_numerals)
next
  fix c
  assume 4: "ds = [code CHR '' '', c]" "ascii_digit c"
  have "1 \<le> c - 48"
    using lo 4 py_int_sp [OF U ascii_decimal [OF U 4(2)]] by (simp add: ascii_val [OF U 4(2)])
  then show ?thesis using 4 by (auto simp: in_range_def ascii_digit_def code_numerals)
qed

lemma day_text_iff:
  assumes U: "unicode_ok U"
  shows "day_text U ds \<longleftrightarrow>
     ((length ds = 1 \<or> length ds = 2) \<and> list_all ascii_digit ds \<or>
      (\<exists>a b. ds = [a, b] \<and> (a = code CHR ''1'' \<or> a = code CHR ''2'') \<and> is_decimal U b) \<or>
      (\<exists>c. ds = [code CHR '' '', c] \<and> ascii_digit c)) \<and>
     1 \<le> py_int U ds \<and> py_int U ds \<le> 31"
  using day_fwd [OF U, of ds] day_bwd [OF U, of ds] by (intro iffI) simp_all

lemma date_ok_ranges: "date_ok y m d \<Longrightarrow> 1 \<le> m \<and> m \<le> 12 \<and> 1 \<le> d \<and> d \<le> 31"
  by (auto simp: date_ok_def days_in_month_def split: if_splits)

lemma unicode_ok_latin1: "unicode_ok latin1"
  by (auto simp: unicode_ok_def latin1_def is_decimal_def ascii_digit_def split: if_splits)

lemma unicode_ok_two_scripts: "unicode_ok two_scripts"
  by (auto simp: unicode_ok_def two_scripts_def latin1_def is_decimal_def ascii_digit_def
      split: if_splits)

lemma is_decimal_latin1: "is_decimal latin1 c \<longleftrightarrow> ascii_digit c"
  by (simp add: is_decimal_def latin1_def)

lemma whitespace_latin1: "whitespace latin1 (code c) \<longleftrightarrow> py_isspace c"
  by (simp add: latin1_def py_isspace_def)

subsection \<open>The validators\<close>

text \<open>
  C3. The claim has \<open>validate_date\<close> accept exactly the zero-padded strings
  \<open>YYYY-MM-DD\<close> of real dates. \<open>strptime\<close> does not ask for the padding, and its \<open>\d\<close>
  and \<open>int\<close> take the decimal digits of every script. On any string, whatever the
  Unicode database within \<open>unicode_ok\<close>, a string is accepted exactly when it is a year of
  four decimal digits, a hyphen, a month of one or two ASCII digits, a hyphen and a day
  that is one or two ASCII digits, or \<open>1\<close> or \<open>2\<close> and a decimal digit, or a space and an
  ASCII digit, and the three numbers are a date of the calendar of the years 1 to 9999.
\<close>

theorem validate_date_iff:
  assumes U: "unicode_ok U"
  shows "validate_date_cp U s \<longleftrightarrow>
     (\<exists>ys ms ds. s = ys @ cps ''-'' @ ms @ cps ''-'' @ ds \<and>
        length ys = 4 \<and> list_all (is_decimal U) ys \<and>
        (length ms = 1 \<or> length ms = 2) \<and> list_all ascii_digit ms \<and>
        ((length ds = 1 \<or> length ds = 2) \<and> list_all ascii_digit ds \<or>
         (\<exists>a b. ds = [a, b] \<and> (a = code CHR ''1'' \<or> a = code CHR ''2'') \<and> is_decimal U b) \<or>
         (\<exists>c. ds = [code CHR '' '', c] \<and> ascii_digit c)) \<and>
        date_ok (py_int U ys) (py_int U ms) (py_int U ds))"
proof -
  have "\<And>ys ms ds.
     (year_text U ys \<and> month_text ms \<and> day_text U ds \<and>
        date_ok (py_int U ys) (py_int U ms) (py_int U ds)) \<longleftrightarrow>
     (length ys = 4 \<and> list_all (is_decimal U) ys \<and>
        (length ms = 1 \<or> length ms = 2) \<and> list_all ascii_digit ms \<and>
        ((length ds = 1 \<or> length ds = 2) \<and> list_all ascii_digit ds \<or>
         (\<exists>a b. ds = [a, b] \<and> (a = code CHR ''1'' \<or> a = code CHR ''2'') \<and> is_decimal U b) \<or>
         (\<exists>c. ds = [code CHR '' '', c] \<and> ascii_digit c)) \<and>
        date_ok (py_int U ys) (py_int U ms) (py_int U ds))"
    unfolding year_text_iff month_text_iff [OF U] day_text_iff [OF U]
    using date_ok_ranges by blast
  then show ?thesis unfolding validate_date_texts by simp
qed

theorem validate_date_iff_witness:
  "unicode_ok two_scripts \<and>
   validate_date_cp two_scripts (cps ''2024-02-2'' @ [1641]) \<and>
   py_int two_scripts (cps ''2'' @ [1641]) = 29 \<and>
   \<not> validate_date_cp two_scripts (cps ''2024-'' @ [1632, 1634] @ cps ''-29'') \<and>
   validate_date ''2024-02-29'' \<and> validate_date ''2024-2-9'' \<and> validate_date ''2024-02- 9'' \<and>
   \<not> validate_date ''2024-02-30''"
proof -
  let ?U = two_scripts
  have a: "cps ''2024-02-2'' @ [1641] = cps ''2024'' @ cps ''-'' @ cps ''02'' @ cps ''-'' @ [50, 1641] \<and>
      length (cps ''2024'') = 4 \<and> list_all (is_decimal ?U) (cps ''2024'') \<and>
      (length (cps ''02'') = 1 \<or> length (cps ''02'') = 2) \<and> list_all ascii_digit (cps ''02'') \<and>
      [50::nat, 1641] = [50, 1641] \<and> ((50::nat) = code CHR ''1'' \<or> 50 = code CHR ''2'') \<and>
      is_decimal ?U 1641 \<and>
      date_ok (py_int ?U (cps ''2024'')) (py_int ?U (cps ''02'')) (py_int ?U [50, 1641])"
    by code_simp
  have b: "cps ''2024-2-9'' = cps ''2024'' @ cps ''-'' @ cps ''2'' @ cps ''-'' @ cps ''9'' \<and>
      length (cps ''2024'') = 4 \<and> list_all (is_decimal latin1) (cps ''2024'') \<and>
      (length (cps ''2'') = 1 \<or> length (cps ''2'') = 2) \<and> list_all ascii_digit (cps ''2'') \<and>
      (length (cps ''9'') = 1 \<or> length (cps ''9'') = 2) \<and> list_all ascii_digit (cps ''9'') \<and>
      date_ok (py_int latin1 (cps ''2024'')) (py_int latin1 (cps ''2'')) (py_int latin1 (cps ''9''))"
    by code_simp
  have c: "py_int two_scripts (cps ''2'' @ [1641]) = 29 \<and>
      \<not> validate_date_cp two_scripts (cps ''2024-'' @ [1632, 1634] @ cps ''-29'') \<and>
      validate_date ''2024-02-29'' \<and> validate_date ''2024-02- 9'' \<and>
      \<not> validate_date ''2024-02-30''"
    by code_simp
  from a have "validate_date_cp ?U (cps ''2024-02-2'' @ [1641])"
    unfolding validate_date_iff [OF unicode_ok_two_scripts, of "cps ''2024-02-2'' @ [1641]"]
    by blast
  moreover from b have "validate_date ''2024-2-9''"
    unfolding validate_date_def validate_date_iff [OF unicode_ok_latin1, of "cps ''2024-2-9''"]
    by blast
  ultimately show ?thesis using c unicode_ok_two_scripts by simp
qed

text \<open>The claim as it is written fails on a date without padding.\<close>

theorem date_shape_counterexample:
  "validate_date ''2024-2-9'' \<and> \<not> spec_date_shape ''2024-2-9''"
  by code_simp

text \<open>
  C4. The claim has \<open>is_valid_email\<close> accept exactly the strings of the shape
  \<open>local-part@domain.tld\<close> without whitespace. The pattern asks more of the last part: a
  string that does not end in a newline is accepted exactly when it is a local part,
  \<open>@\<close>, a domain, a dot and a last part, the local part and the domain not empty and
  free of \<open>@\<close> and whitespace, the last part a non-empty run of ASCII letters and digits.
\<close>

theorem is_valid_email_iff:
  assumes n: "s = [] \<or> last s \<noteq> 10"
  shows "is_valid_email_cp U s \<longleftrightarrow>
     (\<exists>l d t. s = l @ cps ''@'' @ d @ cps ''.'' @ t \<and>
        l \<noteq> [] \<and> d \<noteq> [] \<and> t \<noteq> [] \<and>
        list_all (not_at_space U) l \<and> list_all (not_at_space U) d \<and> list_all ascii_alnum t)"
proof
  assume "is_valid_email_cp U s"
  then obtain g r where "(g, r) \<in> set (rx_match (email_pattern U) s)"
    unfolding is_valid_email_cp_def by (cases "rx_match (email_pattern U) s") auto
  then obtain l d t where h: "r = [] \<or> r = [10]" "s = l @ cps ''@'' @ d @ cps ''.'' @ t @ r"
    "l \<noteq> []" "d \<noteq> []" "t \<noteq> []" "list_all (not_at_space U) l" "list_all (not_at_space U) d"
    "list_all ascii_alnum t"
    unfolding email_match_set by blast
  have "r \<noteq> [10]"
  proof
    assume "r = [10]"
    then have "s \<noteq> [] \<and> last s = 10" unfolding h(2) by simp
    then show False using n by simp
  qed
  then have "s = l @ cps ''@'' @ d @ cps ''.'' @ t" using h(1,2) by simp
  then show "\<exists>l d t. s = l @ cps ''@'' @ d @ cps ''.'' @ t \<and>
        l \<noteq> [] \<and> d \<noteq> [] \<and> t \<noteq> [] \<and>
        list_all (not_at_space U) l \<and> list_all (not_at_space U) d \<and> list_all ascii_alnum t"
    using h(3-8) by blast
next
  assume "\<exists>l d t. s = l @ cps ''@'' @ d @ cps ''.'' @ t \<and>
        l \<noteq> [] \<and> d \<noteq> [] \<and> t \<noteq> [] \<and>
        list_all (not_at_space U) l \<and> list_all (not_at_space U) d \<and> list_all ascii_alnum t"
  then obtain l d t where h: "s = l @ cps ''@'' @ d @ cps ''.'' @ t"
    "l \<noteq> []" "d \<noteq> []" "t \<noteq> []" "list_all (not_at_space U) l" "list_all (not_at_space U) d"
    "list_all ascii_alnum t"
    by blast
  have "s = l @ cps ''@'' @ d @ cps ''.'' @ t @ []" using h(1) by simp
  then have "([], []) \<in> set (rx_match (email_pattern U) s)"
    unfolding email_match_set using h(2-7) by blast
  then show "is_valid_email_cp U s"
    unfolding is_valid_email_cp_def by auto
qed

theorem is_valid_email_iff_witness:
  "(cps ''alice@mail.com'' = [] \<or> last (cps ''alice@mail.com'') \<noteq> 10) \<and>
   is_valid_email ''alice@mail.com'' \<and> is_valid_email ''alice@mail.co.uk'' \<and>
   \<not> is_valid_email ''alice@mail'' \<and> \<not> is_valid_email ''al ice@mail.com''"
proof -
  have n: "cps ''alice@mail.com'' = [] \<or> last (cps ''alice@mail.com'') \<noteq> 10" by code_simp
  have a: "cps ''alice@mail.com'' = cps ''alice'' @ cps ''@'' @ cps ''mail'' @ cps ''.'' @ cps ''com'' \<and>
      cps ''alice'' \<noteq> [] \<and> cps ''mail'' \<noteq> [] \<and> cps ''com'' \<noteq> [] \<and>
      list_all (not_at_space latin1) (cps ''alice'') \<and> list_all (not_at_space latin1) (cps ''mail'') \<and>
      list_all ascii_alnum (cps ''com'')"
    by code_simp
  have c: "is_valid_email ''alice@mail.co.uk'' \<and>
   \<not> is_valid_email ''alice@mail'' \<and> \<not> is_valid_email ''al ice@mail.com''"
    by code_simp
  from a have "is_valid_email ''alice@mail.com''"
    unfolding is_valid_email_def is_valid_email_iff [OF n, of latin1] by blast
  then show ?thesis using n c by simp
qed

text \<open>The claim as it is written fails on a last part that has a hyphen.\<close>

theorem email_shape_counterexample:
  "spec_email_shape ''a@b.c-d'' \<and> \<not> is_valid_email ''a@b.c-d''"
proof
  have "''a@b.c-d'' = ''a'' @ ''@'' @ ''b'' @ ''.'' @ ''c-d'' \<and> ''a'' \<noteq> [] \<and> ''b'' \<noteq> [] \<and>
      ''c-d'' \<noteq> [] \<and> CHR ''@'' \<notin> set (''a'' @ ''b'' @ ''c-d'') \<and>
      \<not> list_ex py_isspace ''a@b.c-d''"
    by (simp add: py_isspace_def code_def)
  then show "spec_email_shape ''a@b.c-d''"
    unfolding spec_email_shape_def by blast
  show "\<not> is_valid_email ''a@b.c-d''" by code_simp
qed

subsection \<open>Repeating a completed turn\<close>

lemma lstrip_id: "s = [] \<or> \<not> py_isspace (hd s) \<Longrightarrow> lstrip s = s"
  by (cases s) (auto simp: lstrip_def)

lemma rstrip_id: "s = [] \<or> \<not> py_isspace (last s) \<Longrightarrow> rstrip s = s"
proof (cases s rule: rev_cases)
  case Nil
  then show ?thesis by (simp add: rstrip_def)
next
  case (snoc xs x)
  assume "s = [] \<or> \<not> py_isspace (last s)"
  then have "\<not> py_isspace x" using snoc by simp
  then show ?thesis using snoc by (simp add: rstrip_def)
qed

lemma strip_id: "s = [] \<or> (\<not> py_isspace (hd s) \<and> \<not> py_isspace (last s)) \<Longrightarrow> strip s = s"
  unfolding strip_def by (cases "s = []") (auto simp: lstrip_id rstrip_id)

lemma lstrip_head: "lstrip s = [] \<or> \<not> py_isspace (hd (lstrip s))"
  unfolding lstrip_def using hd_dropWhile [of py_isspace s] by blast

lemma rstrip_prefix: "\<exists>z. u = rstrip u @ z"
proof -
  have "rev (takeWhile py_isspace (rev u) @ dropWhile py_isspace (rev u)) = u"
    by simp
  then have "u = rstrip u @ rev (takeWhile py_isspace (rev u))"
    unfolding rstrip_def by (simp only: rev_append)
  then show ?thesis by blast
qed

lemma rstrip_last: "rstrip u = [] \<or> \<not> py_isspace (last (rstrip u))"
proof (cases "dropWhile py_isspace (rev u) = []")
  case True
  then show ?thesis by (simp add: rstrip_def)
next
  case False
  then have "\<not> py_isspace (hd (dropWhile py_isspace (rev u)))" by (rule hd_dropWhile)
  then show ?thesis using False by (simp add: rstrip_def last_rev)
qed

lemma strip_ends: "strip s = [] \<or> (\<not> py_isspace (hd (strip s)) \<and> \<not> py_isspace (last (strip s)))"
proof (cases "strip s = []")
  case True
  then show ?thesis by simp
next
  case False
  obtain z where z: "lstrip s = rstrip (lstrip s) @ z" using rstrip_prefix by blast
  have ne: "rstrip (lstrip s) \<noteq> []" using False by (simp add: strip_def)
  then have "lstrip s \<noteq> []" using z by auto
  then have "\<not> py_isspace (hd (lstrip s))" using lstrip_head by blast
  moreover have "hd (lstrip s) = hd (rstrip (lstrip s))" using z ne by (metis hd_append2)
  moreover have "\<not> py_isspace (last (rstrip (lstrip s)))" using rstrip_last ne by blast
  ultimately show ?thesis by (simp add: strip_def)
qed

lemma strip_strip: "strip (strip s) = strip s"
  using strip_ends [of s] by (rule strip_id)

lemma placeholder_strip: "placeholder (strip v) = placeholder v"
  by (simp add: placeholder_def normalized_def strip_strip)

lemma list_all_hd: "xs \<noteq> [] \<Longrightarrow> list_all P xs \<Longrightarrow> P (hd xs)"
  by (cases xs) auto

lemma list_all_last: "xs \<noteq> [] \<Longrightarrow> list_all P xs \<Longrightarrow> P (last xs)"
  by (induction xs) auto

lemma code_inj: "code c = code d \<Longrightarrow> c = d"
  by (simp add: code_def)

lemma ascii_digit_not_space: "ascii_digit (code c) \<Longrightarrow> \<not> py_isspace c"
  by (auto simp: ascii_digit_def py_isspace_def)

lemma alnum_not_space: "ascii_alnum (code c) \<Longrightarrow> \<not> py_isspace c"
  by (auto simp: ascii_alnum_def in_range_def py_isspace_def code_def)

lemma cps_ends:
  assumes "cps s = x" "x \<noteq> []"
  shows "s \<noteq> [] \<and> code (hd s) = hd x \<and> code (last s) = last x"
  using assms by (auto simp: cps_def hd_map last_map)

lemma validate_date_strip:
  assumes "validate_date s"
  shows "strip s = s"
proof -
  obtain ys ms ds where d: "cps s = ys @ cps ''-'' @ ms @ cps ''-'' @ ds" "year_text latin1 ys"
    "day_text latin1 ds"
    using assms unfolding validate_date_def validate_date_texts by blast
  have y: "ys \<noteq> [] \<and> ascii_digit (hd ys)"
    using d(2) by (cases "(latin1, ys)" rule: year_text.cases) (simp_all add: is_decimal_latin1)
  have l: "ds \<noteq> [] \<and> ascii_digit (last ds)"
    using d(3) by (cases "(latin1, ds)" rule: day_text.cases)
      (auto simp: in_range_def ascii_digit_def code_numerals is_decimal_latin1)
  have "hd (cps s) = hd ys" "last (cps s) = last ds" "cps s \<noteq> []"
    using y l unfolding d(1) by simp_all
  then have "s \<noteq> [] \<and> code (hd s) = hd ys \<and> code (last s) = last ds"
    using cps_ends [of s "cps s"] by simp
  then show ?thesis using y l by (intro strip_id) (simp add: ascii_digit_not_space)
qed

lemma colon_not_decimal: "\<not> is_decimal latin1 (code CHR '':'')"
  by (simp add: is_decimal_latin1 ascii_digit_def code_numerals)

lemma validate_time_strip:
  assumes "validate_time s"
  shows "strip s = s"
proof -
  obtain hs ms where d: "cps s = hs @ cps '':'' @ ms" "hour_text latin1 hs" "minute_text latin1 ms"
    using assms unfolding validate_time_def validate_time_texts [OF colon_not_decimal] by blast
  have y: "hs \<noteq> [] \<and> ascii_digit (hd hs)"
    using d(2) by (cases "(latin1, hs)" rule: hour_text.cases)
      (auto simp: in_range_def ascii_digit_def code_numerals is_decimal_latin1)
  have l: "ms \<noteq> [] \<and> ascii_digit (last ms)"
    using d(3) by (cases "(latin1, ms)" rule: minute_text.cases)
      (auto simp: in_range_def ascii_digit_def code_numerals is_decimal_latin1)
  have "hd (cps s) = hd hs" "last (cps s) = last ms" "cps s \<noteq> []"
    using y l unfolding d(1) by simp_all
  then have "s \<noteq> [] \<and> code (hd s) = hd hs \<and> code (last s) = last ms"
    using cps_ends [of s "cps s"] by simp
  then show ?thesis using y l by (intro strip_id) (simp add: ascii_digit_not_space)
qed

lemma rstrip_newline: "rstrip (x @ [CHR 0x0A]) = rstrip x"
  by (simp add: rstrip_def py_isspace_def code_def)

lemma is_valid_email_match:
  "is_valid_email_cp U s \<longleftrightarrow> (\<exists>r. ([], r) \<in> set (rx_match (email_pattern U) s))"
proof
  assume "is_valid_email_cp U s"
  then obtain g r where "(g, r) \<in> set (rx_match (email_pattern U) s)"
    unfolding is_valid_email_cp_def by (cases "rx_match (email_pattern U) s") auto
  moreover from this have "g = []" unfolding email_match_set by blast
  ultimately show "\<exists>r. ([], r) \<in> set (rx_match (email_pattern U) s)" by blast
next
  assume "\<exists>r. ([], r) \<in> set (rx_match (email_pattern U) s)"
  then show "is_valid_email_cp U s" unfolding is_valid_email_cp_def by auto
qed

lemma is_valid_email_strip:
  assumes "is_valid_email s"
  shows "is_valid_email (strip s)"
proof -
  obtain r l d t where h: "r = [] \<or> r = [10]" "cps s = l @ cps ''@'' @ d @ cps ''.'' @ t @ r"
    "l \<noteq> []" "d \<noteq> []" "t \<noteq> []" "list_all (not_at_space latin1) l"
    "list_all (not_at_space latin1) d" "list_all ascii_alnum t"
    using assms unfolding is_valid_email_def is_valid_email_match email_match_set by blast
  let ?x = "l @ cps ''@'' @ d @ cps ''.'' @ t"
  have hx: "?x \<noteq> []" "hd ?x = hd l" "last ?x = last t" using h(3,5) by simp_all
  have v: "is_valid_email x \<and> x \<noteq> [] \<and> \<not> py_isspace (hd x) \<and> \<not> py_isspace (last x)"
    if x: "cps x = ?x" for x
  proof -
    have e: "x \<noteq> [] \<and> code (hd x) = hd l \<and> code (last x) = last t"
      using cps_ends [OF x hx(1)] hx(2,3) by simp
    have "not_at_space latin1 (code (hd x))" using list_all_hd [OF h(3,6)] e by simp
    then have a: "\<not> py_isspace (hd x)" by (simp add: not_at_space_def whitespace_latin1)
    have "ascii_alnum (code (last x))" using list_all_last [OF h(5,8)] e by simp
    then have b: "\<not> py_isspace (last x)" by (rule alnum_not_space)
    have "cps x = l @ cps ''@'' @ d @ cps ''.'' @ t @ []" using x by simp
    then have "([], []) \<in> set (rx_match (email_pattern latin1) (cps x))"
      unfolding email_match_set using h(3-8) by blast
    then have "is_valid_email x" unfolding is_valid_email_def is_valid_email_match by blast
    then show ?thesis using a b e by simp
  qed
  from h(1) show ?thesis
  proof
    assume "r = []"
    then have "cps s = ?x" using h(2) by simp
    then have "is_valid_email s" "strip s = s" using v [of s] by (simp_all add: strip_id)
    then show ?thesis by simp
  next
    assume "r = [10]"
    then have c: "cps s = ?x @ [10]" using h(2) by simp
    then have ne: "s \<noteq> []" by (auto simp: cps_def)
    have "code (last s) = 10" using c ne by (simp add: cps_def last_map [symmetric])
    then have "code (last s) = code (CHR 0x0A)" by (simp add: code_def)
    then have la: "last s = CHR 0x0A" by (rule code_inj)
    have s': "s = butlast s @ [CHR 0x0A]" using ne la append_butlast_last_id [of s] by simp
    have "butlast (cps s) = ?x" unfolding c by (rule butlast_snoc)
    moreover have "cps (butlast s) = butlast (cps s)" by (simp add: cps_def map_butlast)
    ultimately have "cps (butlast s) = ?x" by simp
    then have w: "is_valid_email (butlast s)" "butlast s \<noteq> []" "\<not> py_isspace (hd (butlast s))"
      "\<not> py_isspace (last (butlast s))"
      using v [of "butlast s"] by simp_all
    have "hd s = hd (butlast s)" using s' w(2) by (metis hd_append2)
    then have "lstrip s = s" using w(3) by (intro lstrip_id) simp
    then have "strip s = rstrip (butlast s @ [CHR 0x0A])" unfolding strip_def using s' by simp
    also have "\<dots> = rstrip (butlast s)" by (rule rstrip_newline)
    also have "\<dots> = butlast s" using w(4) by (intro rstrip_id) simp
    finally show ?thesis using w(1) by simp
  qed
qed

lemma no_missing_iff:
  "missing_fields bi = [] \<longleftrightarrow>
     (\<forall>f \<in> set required_fields. \<not> placeholder (getattr bi f)) \<and>
     validate_date (date bi) \<and> validate_time (time bi) \<and> is_valid_email (email bi)"
proof -
  have r: "''date'' \<in> set required_fields" "''time'' \<in> set required_fields"
    "''email'' \<in> set required_fields"
    by (simp_all add: required_fields_def)
  show ?thesis
    unfolding missing_fields_split using r
    by (auto simp: filter_empty_conv simp del: getattr_fields) (auto dest: bspec)
qed

text \<open>
  C9. After a turn that completed the booking, a next booking turn in which the
  extractor returns the values the five slots hold completes again, leaves the slots
  as they are and gives the same reply, hence the same link, for the same host.
\<close>

theorem repeated_completion_is_idempotent:
  assumes "is_booking_flow s msg" and "booking_chain (combined_input s msg) = Parsed bi"
    and "missing_fields bi = []"
    and "s1 = fst (chat booking_chain rag_chain host_url s msg)"
    and "is_booking_flow s1 msg'" and "booking_chain' (combined_input s1 msg') = Parsed bi'"
    and "\<forall>f \<in> set required_fields. slots s1 f = Some (getattr bi' f)"
  shows "missing_fields bi' = [] \<and>
    slots (fst (chat booking_chain' rag_chain' host_url s1 msg')) = slots s1 \<and>
    snd (chat booking_chain' rag_chain' host_url s1 msg') =
      snd (chat booking_chain rag_chain host_url s msg)"
proof -
  have np: "\<And>f. f \<in> set required_fields \<Longrightarrow> \<not> placeholder (getattr bi f)"
    using assms(3) by (rule no_missing_no_placeholder)
  have v: "validate_date (date bi)" "validate_time (time bi)" "is_valid_email (email bi)"
    using assms(3) unfolding no_missing_iff by simp_all
  have s1: "\<And>f. f \<in> set required_fields \<Longrightarrow> slots s1 f = Some (strip (getattr bi f))"
    unfolding assms(4) chat_completion [of s msg booking_chain bi rag_chain host_url, OF assms(1-3)] using np by (simp add: store_fields_slots)
  have same: "\<And>f. f \<in> set required_fields \<Longrightarrow> getattr bi' f = strip (getattr bi f)"
    using s1 assms(7) by fastforce
  have r: "''name'' \<in> set required_fields" "''email'' \<in> set required_fields"
    "''service'' \<in> set required_fields" "''date'' \<in> set required_fields"
    "''time'' \<in> set required_fields"
    by (simp_all add: required_fields_def)
  have f5: "name bi' = strip (name bi)" "email bi' = strip (email bi)"
    "service bi' = strip (service bi)" "date bi' = strip (date bi)" "time bi' = strip (time bi)"
    using same [OF r(1)] same [OF r(2)] same [OF r(3)] same [OF r(4)] same [OF r(5)] by simp_all
  have np': "\<And>f. f \<in> set required_fields \<Longrightarrow> \<not> placeholder (getattr bi' f)"
    using np same by (simp add: placeholder_strip)
  have m: "missing_fields bi' = []"
    unfolding no_missing_iff f5
    using np' v by (simp add: validate_date_strip validate_time_strip is_valid_email_strip)
  have sl: "slots (fst (chat booking_chain' rag_chain' host_url s1 msg')) = slots s1"
  proof
    fix f
    show "slots (fst (chat booking_chain' rag_chain' host_url s1 msg')) f = slots s1 f"
    proof (cases "f \<in> set required_fields")
      case True
      then show ?thesis
        unfolding chat_completion [of s1 msg' booking_chain' bi' rag_chain' host_url, OF assms(5,6) m]
        using np' [OF True] same [OF True] s1 [OF True] by (simp add: store_fields_slots strip_strip)
    next
      case False
      then show ?thesis
        unfolding chat_completion [of s1 msg' booking_chain' bi' rag_chain' host_url, OF assms(5,6) m] by (simp add: store_fields_slots)
    qed
  qed
  have rp: "snd (chat booking_chain' rag_chain' host_url s1 msg') =
      snd (chat booking_chain rag_chain host_url s msg)"
    unfolding chat_completion [of s1 msg' booking_chain' bi' rag_chain' host_url, OF assms(5,6) m] chat_completion [of s msg booking_chain bi rag_chain host_url, OF assms(1-3)] f5
    by (simp add: strip_strip)
  show ?thesis using m sl rp by simp
qed

theorem repeated_completion_is_idempotent_witness:
  "missing_fields \<lparr>name = ''Alice'', email = ''alice@mail.com'', service = ''Therapy'',
       date = ''2025-03-10'', time = ''14:30''\<rparr> = [] \<and>
   slots (fst (chat (\<lambda>x. Parsed \<lparr>name = ''Alice'', email = ''alice@mail.com'', service = ''Therapy'',
                 date = ''2025-03-10'', time = ''14:30''\<rparr>) (\<lambda>q. None) ''http://localhost:8080/''
            (fst (chat (\<lambda>x. Parsed \<lparr>name = '' Alice '', email = ''alice@mail.com'',
                    service = ''Therapy'', date = ''2025-03-10'', time = ''14:30''\<rparr>) (\<lambda>q. None)
                  ''http://localhost:8080/''
                  \<lparr>conversation_history = None, booking_in_progress = None, slots = Map.empty\<rparr>
                  ''book an appointment''))
            ''book it again'')) =
     slots (fst (chat (\<lambda>x. Parsed \<lparr>name = '' Alice '', email = ''alice@mail.com'',
                    service = ''Therapy'', date = ''2025-03-10'', time = ''14:30''\<rparr>) (\<lambda>q. None)
                  ''http://localhost:8080/''
                  \<lparr>conversation_history = None, booking_in_progress = None, slots = Map.empty\<rparr>
                  ''book an appointment'')) \<and>
   snd (chat (\<lambda>x. Parsed \<lparr>name = ''Alice'', email = ''alice@mail.com'', service = ''Therapy'',
                 date = ''2025-03-10'', time = ''14:30''\<rparr>) (\<lambda>q. None) ''http://localhost:8080/''
            (fst (chat (\<lambda>x. Parsed \<lparr>name = '' Alice '', email = ''alice@mail.com'',
                    service = ''Therapy'', date = ''2025-03-10'', time = ''14:30''\<rparr>) (\<lambda>q. None)
                  ''http://localhost:8080/''
                  \<lparr>conversation_history = None, booking_in_progress = None, slots = Map.empty\<rparr>
                  ''book an appointment''))
            ''book it again'') =
     snd (chat (\<lambda>x. Parsed \<lparr>name = '' Alice '', email = ''alice@mail.com'',
                    service = ''Therapy'', date = ''2025-03-10'', time = ''14:30''\<rparr>) (\<lambda>q. None)
                  ''http://localhost:8080/''
                  \<lparr>conversation_history = None, booking_in_progress = None, slots = Map.empty\<rparr>
                  ''book an appointment'')"
proof -
  let ?bi = "\<lparr>name = '' Alice '', email = ''alice@mail.com'', service = ''Therapy'',
       date = ''2025-03-10'', time = ''14:30''\<rparr>"
  let ?bi' = "\<lparr>name = ''Alice'', email = ''alice@mail.com'', service = ''Therapy'',
       date = ''2025-03-10'', time = ''14:30''\<rparr>"
  let ?s = "\<lparr>conversation_history = None, booking_in_progress = None, slots = Map.empty\<rparr>"
  let ?s1 = "fst (chat (\<lambda>x. Parsed ?bi) (\<lambda>q. None) ''http://localhost:8080/'' ?s
                ''book an appointment'')"
  have a1: "is_booking_flow ?s ''book an appointment''" by code_simp
  have a2: "(\<lambda>x. Parsed ?bi) (combined_input ?s ''book an appointment'') = Parsed ?bi" by simp
  have a3: "missing_fields ?bi = []" by code_simp
  have a4: "?s1 = ?s1" by simp
  have k: "list_ex (\<lambda>word. str_in word (lower ''book it again'')) booking_keywords" by code_simp
  have a5: "is_booking_flow ?s1 ''book it again''"
    unfolding is_booking_flow_def using k by blast
  have a6: "(\<lambda>x. Parsed ?bi') (combined_input ?s1 ''book it again'') = Parsed ?bi'" by simp
  have a7: "\<forall>f \<in> set required_fields. slots ?s1 f = Some (getattr ?bi' f)" by code_simp
  show ?thesis
    by (rule repeated_completion_is_idempotent
        [of ?s "''book an appointment''" "\<lambda>x. Parsed ?bi" ?bi ?s1 "\<lambda>q. None"
          "''http://localhost:8080/''" "''book it again''" "\<lambda>x. Parsed ?bi'" ?bi' "\<lambda>q. None",
          OF a1 a2 a3 a4 a5 a6 a7])
qed

end
